theory Spec2Isabelle
  imports Main
begin

section \<open>Cards\<close>

text \<open>
  The enumerations \<open>Suit\<close> and \<open>Rank\<close> of \<^verbatim>\<open>blackjack.hpp\<close>. The ranks are listed in
  the order of their underlying values 2 .. 14.
\<close>

datatype Suit = Clubs | Diamonds | Hearts | Spades

datatype Rank = Two | Three | Four | Five | Six | Seven | Eight | Nine | Ten
  | Jack | Queen | King | Ace

datatype Card = Card (rank: Rank) (suit: Suit)

text \<open>\<^verbatim>\<open>card_value\<close>: pips for 2 .. 9, ten for Ten and the faces, eleven for the Ace.\<close>

fun card_value :: "Rank \<Rightarrow> int" where
  "card_value Two = 2"
| "card_value Three = 3"
| "card_value Four = 4"
| "card_value Five = 5"
| "card_value Six = 6"
| "card_value Seven = 7"
| "card_value Eight = 8"
| "card_value Nine = 9"
| "card_value Ten = 10"
| "card_value Jack = 10"
| "card_value Queen = 10"
| "card_value King = 10"
| "card_value Ace = 11"

section \<open>Faults\<close>

text \<open>
  The engine raises no exception of its own. What can go wrong is undefined behaviour of
  the C++ arithmetic and of \<^verbatim>\<open>vector::operator[]\<close>, and the \<^verbatim>\<open>length_error\<close> that
  \<^verbatim>\<open>vector::reserve\<close> throws. Each is a value here, so that no HOL default (division by
  zero, an index out of range) passes for a result of the program.
\<close>

datatype fault = DivideByZero | SignedOverflow | OutOfRange | LengthError

definition in_int32 :: "int \<Rightarrow> bool" where
  "in_int32 x = (- (2 ^ 31) \<le> x \<and> x < 2 ^ 31)"

definition in_int64 :: "int \<Rightarrow> bool" where
  "in_int64 x = (- (2 ^ 63) \<le> x \<and> x < 2 ^ 63)"

text \<open>An \<^verbatim>\<open>int64_t\<close> result: the value when it is representable, a fault otherwise.\<close>

definition ck64 :: "int \<Rightarrow> fault + int" where
  "ck64 x = (if in_int64 x then Inr x else Inl SignedOverflow)"

text \<open>The quotient of C++ integer division, which truncates towards zero.\<close>

definition cdiv :: "int \<Rightarrow> int \<Rightarrow> int" where
  "cdiv a b = sgn a * sgn b * (\<bar>a\<bar> div \<bar>b\<bar>)"

text \<open>\<^verbatim>\<open>a / b\<close> on \<^verbatim>\<open>int64_t\<close> operands.\<close>

definition div64 :: "int \<Rightarrow> int \<Rightarrow> fault + int" where
  "div64 a b = (if b = 0 then Inl DivideByZero else ck64 (cdiv a b))"

section \<open>Rules\<close>

record Rules =
  num_decks :: int
  dealer_hits_soft17 :: bool
  double_allowed :: bool
  double_after_split :: bool
  surrender :: bool
  peek_for_blackjack :: bool
  blackjack_pays_num :: int
  blackjack_pays_den :: int

text \<open>The default member initialisers of \<^verbatim>\<open>struct Rules\<close>.\<close>

definition default_rules :: Rules where
  "default_rules = \<lparr> num_decks = 6, dealer_hits_soft17 = True, double_allowed = True,
     double_after_split = True, surrender = False, peek_for_blackjack = True,
     blackjack_pays_num = 3, blackjack_pays_den = 2 \<rparr>"

section \<open>Hand\<close>

record Hand =
  cards :: "Card list"
  doubled :: bool
  surrendered :: bool

definition empty_hand :: Hand where
  "empty_hand = \<lparr> cards = [], doubled = False, surrendered = False \<rparr>"

definition add :: "Hand \<Rightarrow> Card \<Rightarrow> Hand" where
  "add h c = h\<lparr> cards := cards h @ [c] \<rparr>"

text \<open>The two accumulation loops of \<^verbatim>\<open>hard_total\<close>: the sum of the card values and the
  number of Aces. A hand's totals are far inside the range of \<^verbatim>\<open>int\<close> (a hand needs
  over 195 million cards to leave it), so they are unbounded integers here.\<close>

definition sum_values :: "Card list \<Rightarrow> int" where
  "sum_values cs = sum_list (map (\<lambda>c. card_value (rank c)) cs)"

definition count_aces :: "Card list \<Rightarrow> int" where
  "count_aces cs = int (length (filter (\<lambda>c. rank c = Ace) cs))"

text \<open>The loop \<^verbatim>\<open>while (total > 21 && aces > 0) { total -= 10; --aces; }\<close>, returning
  both variables.\<close>

function reduce_aces :: "int \<Rightarrow> int \<Rightarrow> int \<times> int" where
  "reduce_aces tot aces =
     (if tot > 21 \<and> aces > 0 then reduce_aces (tot - 10) (aces - 1) else (tot, aces))"
  by pat_completeness auto
termination
  by (relation "measure (\<lambda>(tot, aces). nat aces)") auto

declare reduce_aces.simps [simp del]

definition hard_total :: "Hand \<Rightarrow> int" where
  "hard_total h = fst (reduce_aces (sum_values (cards h)) (count_aces (cards h)))"

text \<open>\<^verbatim>\<open>is_soft\<close>, as written: the outer total is computed and never used; the predicate
  given to \<^verbatim>\<open>any_of\<close> recomputes the reduced total \<open>base\<close> for each Ace and compares it
  with \<^verbatim>\<open>hard_total()\<close>.\<close>

definition is_soft :: "Hand \<Rightarrow> bool" where
  "is_soft h =
     (let tot = fst (reduce_aces (sum_values (cards h)) (count_aces (cards h)))
      in list_ex (\<lambda>c.
           if rank c \<noteq> Ace then False
           else (let base = fst (reduce_aces (sum_values (cards h)) (count_aces (cards h)))
                 in base \<le> 21 \<and> length (filter (\<lambda>t. rank t = Ace) (cards h)) > 0
                    \<and> base \<noteq> hard_total h))
         (cards h))"

definition is_blackjack :: "Hand \<Rightarrow> bool" where
  "is_blackjack h = (length (cards h) = 2 \<and> hard_total h = 21)"

definition is_bust :: "Hand \<Rightarrow> bool" where
  "is_bust h = (hard_total h > 21)"

section \<open>Shoe\<close>

text \<open>
  \<^verbatim>\<open>std::mt19937_64\<close> and \<^verbatim>\<open>std::shuffle\<close> belong to the C++ library, not to this
  repository. The generator's state is a type parameter \<open>'g\<close>; seeding it and shuffling
  with it are parameters \<open>mk\<close> and \<open>shuf\<close> of the operations that use them. \<open>shuf g xs\<close>
  returns the reordered cards and the generator as the call leaves it.
\<close>

type_synonym 'g shuffler = "'g \<Rightarrow> Card list \<Rightarrow> Card list \<times> 'g"

text \<open>The members \<^verbatim>\<open>cards_\<close>, \<^verbatim>\<open>next_\<close> and \<^verbatim>\<open>rng_\<close>; a field name cannot end in an
  underscore here, so they carry the prefix \<open>s_\<close> (and those of \<^verbatim>\<open>Round\<close> the prefix
  \<open>r_\<close>).\<close>

record 'g Shoe =
  s_cards :: "Card list"
  s_next :: nat
  s_rng :: 'g

definition all_ranks :: "Rank list" where
  "all_ranks = [Two, Three, Four, Five, Six, Seven, Eight, Nine, Ten, Jack, Queen, King, Ace]"

definition all_suits :: "Suit list" where
  "all_suits = [Clubs, Diamonds, Hearts, Spades]"

text \<open>One pass of the two inner loops of \<^verbatim>\<open>reset\<close>: suits outside, ranks inside.\<close>

definition one_deck :: "Card list" where
  "one_deck = concat (map (\<lambda>s. map (\<lambda>r. Card r s) all_ranks) all_suits)"

definition shuffle :: "'g shuffler \<Rightarrow> 'g Shoe \<Rightarrow> 'g Shoe" where
  "shuffle shuf sh =
     (case shuf (s_rng sh) (s_cards sh) of (cs, g) \<Rightarrow> sh\<lparr> s_cards := cs, s_rng := g \<rparr>)"

text \<open>\<^verbatim>\<open>reset\<close>: \<^verbatim>\<open>decks * 52\<close> is an \<^verbatim>\<open>int\<close> product; a negative one, converted to
  \<^verbatim>\<open>size_t\<close>, exceeds what \<^verbatim>\<open>reserve\<close> accepts.\<close>

definition reset :: "'g shuffler \<Rightarrow> int \<Rightarrow> 'g Shoe \<Rightarrow> fault + 'g Shoe" where
  "reset shuf decks sh =
     (if \<not> in_int32 (decks * 52) then Inl SignedOverflow
      else if decks < 0 then Inl LengthError
      else Inr ((shuffle shuf (sh\<lparr> s_cards := concat (replicate (nat decks) one_deck) \<rparr>))
                  \<lparr> s_next := 0 \<rparr>))"

text \<open>The constructor \<^verbatim>\<open>Shoe(decks, seed)\<close>.\<close>

definition new_shoe :: "(nat \<Rightarrow> 'g) \<Rightarrow> 'g shuffler \<Rightarrow> int \<Rightarrow> nat \<Rightarrow> fault + 'g Shoe" where
  "new_shoe mk shuf decks seed = reset shuf decks \<lparr> s_cards = [], s_next = 0, s_rng = mk seed \<rparr>"

text \<open>\<^verbatim>\<open>draw\<close>: reading \<^verbatim>\<open>cards_[next_]\<close> past the end (an empty shoe) is undefined.\<close>

definition draw :: "'g shuffler \<Rightarrow> 'g Shoe \<Rightarrow> fault + (Card \<times> 'g Shoe)" where
  "draw shuf sh =
     (let sh1 = (if s_next sh \<ge> length (s_cards sh) then (shuffle shuf sh)\<lparr> s_next := 0 \<rparr> else sh)
      in if s_next sh1 < length (s_cards sh1)
         then Inr (s_cards sh1 ! s_next sh1, sh1\<lparr> s_next := s_next sh1 + 1 \<rparr>)
         else Inl OutOfRange)"

text \<open>\<^verbatim>\<open>remaining\<close>: a difference of two \<^verbatim>\<open>size_t\<close> values, which wraps modulo \<open>2^64\<close>.\<close>

definition remaining :: "'g Shoe \<Rightarrow> nat" where
  "remaining sh = nat ((int (length (s_cards sh)) - int (s_next sh)) mod 2 ^ 64)"

section \<open>Decisions and strategies\<close>

datatype Decision = Hit | Stand | Double | Surrender

record Situation =
  player :: Hand
  dealer :: Hand
  rules :: Rules
  can_double :: bool

text \<open>\<^verbatim>\<open>Strategy::decide\<close> is a virtual, non-const member: an implementation may keep
  state between calls. A strategy is a function from its state \<open>'s\<close> and the situation to
  the decision and the state it leaves.\<close>

type_synonym 's Strategy = "'s \<Rightarrow> Situation \<Rightarrow> Decision \<times> 's"

definition AlwaysHitUnder17_decide :: "Situation \<Rightarrow> Decision" where
  "AlwaysHitUnder17_decide s =
     (if double_allowed (rules s) \<and> can_double s \<and> length (cards (player s)) = 2
         \<and> hard_total (player s) \<ge> 9 \<and> hard_total (player s) \<le> 11
      then Double
      else if hard_total (player s) < 17 then Hit
      else Stand)"

definition AlwaysHitUnder17 :: "'s Strategy" where
  "AlwaysHitUnder17 st s = (AlwaysHitUnder17_decide s, st)"

section \<open>Round\<close>

datatype Outcome = PlayerBJ | DealerBJ | PlayerBust | DealerBust | PlayerWin | DealerWin
  | Push | PlayerSurrender

record RoundResult =
  outcome :: Outcome
  player_total :: int
  dealer_total :: int
  payout_cents :: int

text \<open>The members of \<^verbatim>\<open>class Round\<close>. The shoe and the strategy are references in the
  source: \<open>r_shoe\<close> and \<open>r_strat\<close> hold the state of the referenced objects, which the
  caller reads back after \<^verbatim>\<open>play\<close>.\<close>

record ('s, 'g) Round =
  r_rules :: Rules
  r_shoe :: "'g Shoe"
  r_strat :: 's
  r_bet :: int
  r_player :: Hand
  r_dealer :: Hand

definition new_round :: "Rules \<Rightarrow> 'g Shoe \<Rightarrow> 's \<Rightarrow> int \<Rightarrow> ('s, 'g) Round" where
  "new_round rs sh st bet =
     \<lparr> r_rules = rs, r_shoe = sh, r_strat = st, r_bet = bet, r_player = empty_hand, r_dealer = empty_hand \<rparr>"

text \<open>The payout computed by the \<^verbatim>\<open>switch\<close> of \<^verbatim>\<open>settle\<close>. Every product and sum is an
  \<^verbatim>\<open>int64_t\<close> operation (the \<^verbatim>\<open>int\<close> operands are converted first). For DealerBust and
  PlayerWin the source computes \<^verbatim>\<open>bet_ * 2\<close> before it looks at \<^verbatim>\<open>doubled\<close>.\<close>

fun settle_payout :: "Rules \<Rightarrow> int \<Rightarrow> bool \<Rightarrow> Outcome \<Rightarrow> fault + int" where
  "settle_payout rs bet dbl PlayerBJ =
     (case ck64 (bet * blackjack_pays_num rs) of Inl e \<Rightarrow> Inl e
      | Inr m \<Rightarrow> (case div64 m (blackjack_pays_den rs) of Inl e \<Rightarrow> Inl e
          | Inr q \<Rightarrow> ck64 (bet + q)))"
| "settle_payout rs bet dbl DealerBJ = Inr 0"
| "settle_payout rs bet dbl PlayerBust = Inr 0"
| "settle_payout rs bet dbl DealerBust =
     (case ck64 (bet * 2) of Inl e \<Rightarrow> Inl e
      | Inr p \<Rightarrow> if dbl then ck64 (bet * 4) else Inr p)"
| "settle_payout rs bet dbl PlayerWin =
     (case ck64 (bet * 2) of Inl e \<Rightarrow> Inl e
      | Inr p \<Rightarrow> if dbl then ck64 (bet * 4) else Inr p)"
| "settle_payout rs bet dbl DealerWin = (if dbl then Inr 0 else Inr 0)"
| "settle_payout rs bet dbl Push = (if dbl then ck64 (bet * 2) else Inr bet)"
| "settle_payout rs bet dbl PlayerSurrender = div64 bet 2"

definition settle :: "('s, 'g) Round \<Rightarrow> Outcome \<Rightarrow> fault + RoundResult" where
  "settle r oc =
     (case settle_payout (r_rules r) (r_bet r) (doubled (r_player r)) oc of Inl e \<Rightarrow> Inl e
      | Inr payout \<Rightarrow> Inr \<lparr> outcome = oc, player_total = hard_total (r_player r),
          dealer_total = hard_total (r_dealer r), payout_cents = payout \<rparr>)"

text \<open>\<^verbatim>\<open>return settle(oc)\<close> inside \<^verbatim>\<open>play\<close>: the result, and the round as it is left.\<close>

definition return_settle ::
  "('s, 'g) Round \<Rightarrow> Outcome \<Rightarrow> fault + (RoundResult \<times> ('s, 'g) Round)" where
  "return_settle r oc = (case settle r oc of Inl e \<Rightarrow> Inl e | Inr res \<Rightarrow> Inr (res, r))"

text \<open>\<^verbatim>\<open>player_.add(shoe_.draw())\<close> and \<^verbatim>\<open>dealer_.add(shoe_.draw())\<close>.\<close>

definition deal_player :: "'g shuffler \<Rightarrow> ('s, 'g) Round \<Rightarrow> fault + ('s, 'g) Round" where
  "deal_player shuf r =
     (case draw shuf (r_shoe r) of Inl e \<Rightarrow> Inl e
      | Inr (c, sh) \<Rightarrow> Inr (r\<lparr> r_shoe := sh, r_player := add (r_player r) c \<rparr>))"

definition deal_dealer :: "'g shuffler \<Rightarrow> ('s, 'g) Round \<Rightarrow> fault + ('s, 'g) Round" where
  "deal_dealer shuf r =
     (case draw shuf (r_shoe r) of Inl e \<Rightarrow> Inl e
      | Inr (c, sh) \<Rightarrow> Inr (r\<lparr> r_shoe := sh, r_dealer := add (r_dealer r) c \<rparr>))"

text \<open>The first four statements of \<^verbatim>\<open>play\<close> after the hands are cleared.\<close>

definition initial_deal :: "'g shuffler \<Rightarrow> ('s, 'g) Round \<Rightarrow> fault + ('s, 'g) Round" where
  "initial_deal shuf r =
     (case deal_player shuf (r\<lparr> r_player := empty_hand, r_dealer := empty_hand \<rparr>) of
        Inl e \<Rightarrow> Inl e
      | Inr r1 \<Rightarrow> (case deal_dealer shuf r1 of Inl e \<Rightarrow> Inl e
          | Inr r2 \<Rightarrow> (case deal_player shuf r2 of Inl e \<Rightarrow> Inl e
              | Inr r3 \<Rightarrow> deal_dealer shuf r3)))"

text \<open>\<^verbatim>\<open>Situation s{player_, dealer_, rules_, can_double}\<close>.\<close>

definition situation :: "('s, 'g) Round \<Rightarrow> bool \<Rightarrow> Situation" where
  "situation r can_dbl =
     \<lparr> player = r_player r, dealer = r_dealer r, rules = r_rules r, can_double = can_dbl \<rparr>"

text \<open>One call of \<^verbatim>\<open>strat_.decide(s)\<close>: the decision, and the round with the strategy
  object as the call leaves it.\<close>

definition decide :: "'s Strategy \<Rightarrow> ('s, 'g) Round \<Rightarrow> bool \<Rightarrow> Decision \<times> ('s, 'g) Round" where
  "decide strat r can_dbl =
     (case strat (r_strat r) (situation r can_dbl) of (d, st) \<Rightarrow> (d, r\<lparr> r_strat := st \<rparr>))"

text \<open>The player's loop. The result is the outcome of a \<^verbatim>\<open>return settle(..)\<close> inside the
  loop (surrender, bust) or \<open>None\<close> when the loop is left by \<^verbatim>\<open>break\<close>, and the round as
  the loop leaves it. With surrender enabled and two cards in hand the strategy is asked
  twice in one iteration: once for the surrender offer (\<open>asked\<close>, which is the round
  untouched when no offer is made), once for the decision.\<close>

function player_turn ::
  "'g shuffler \<Rightarrow> 's Strategy \<Rightarrow> ('s, 'g) Round \<Rightarrow> bool
     \<Rightarrow> fault + (Outcome option \<times> ('s, 'g) Round)" where
  "player_turn shuf strat r can_dbl =
     (let offer = (surrender (r_rules r) \<and> length (cards (r_player r)) = 2);
          asked = (if offer then decide strat r can_dbl else (Stand, r))
      in if offer \<and> fst asked = Surrender
         then Inr (Some PlayerSurrender,
                   (snd asked)\<lparr> r_player := (r_player (snd asked))\<lparr> surrendered := True \<rparr> \<rparr>)
         else
           (case decide strat (snd asked) can_dbl of
              (d, r1) \<Rightarrow>
                if d = Double \<and> can_dbl then
                  (case deal_player shuf
                          (r1\<lparr> r_player := (r_player r1)\<lparr> doubled := True \<rparr> \<rparr>) of
                     Inl e \<Rightarrow> Inl e
                   | Inr r2 \<Rightarrow> Inr (None, r2))
                else if d = Hit then
                  (case deal_player shuf r1 of
                     Inl e \<Rightarrow> Inl e
                   | Inr r2 \<Rightarrow>
                       if is_bust (r_player r2) then Inr (Some PlayerBust, r2)
                       else player_turn shuf strat r2 False)
                else Inr (None, r1)))"
  by pat_completeness auto

text \<open>Termination of the loops rests on the total of a hand with every Ace counted as 1:
  it grows with every card and never exceeds the hard total.\<close>

definition low_total :: "Hand \<Rightarrow> int" where
  "low_total h = sum_values (cards h) - 10 * count_aces (cards h)"

lemma reduce_aces_lower: "0 \<le> aces \<Longrightarrow> tot - 10 * aces \<le> fst (reduce_aces tot aces)"
proof (induction tot aces rule: reduce_aces.induct)
  case (1 tot aces)
  show ?case
  proof (cases "tot > 21 \<and> aces > 0")
    case True
    with 1 have "tot - 10 - 10 * (aces - 1) \<le> fst (reduce_aces (tot - 10) (aces - 1))"
      by simp
    with True show ?thesis
      by (subst reduce_aces.simps) simp
  next
    case False
    with 1 show ?thesis
      by (subst reduce_aces.simps) auto
  qed
qed

lemma low_total_le_hard_total: "low_total h \<le> hard_total h"
  unfolding low_total_def hard_total_def
  by (rule reduce_aces_lower) (simp add: count_aces_def)

lemma card_value_low: "1 \<le> card_value rk - (if rk = Ace then 10 else 0)"
  by (cases rk) simp_all

lemma low_total_add: "low_total h < low_total (add h c)"
  using card_value_low [of "rank c"]
  by (cases "rank c = Ace") (simp_all add: low_total_def add_def sum_values_def count_aces_def)

lemma decide_player: "r_player (snd (decide strat r b)) = r_player r"
  by (simp add: decide_def split: prod.split)

lemma deal_player_low_total:
  "deal_player shuf r = Inr r' \<Longrightarrow> low_total (r_player r) < low_total (r_player r')"
  by (auto simp: deal_player_def low_total_add split: sum.splits)

lemma deal_dealer_low_total:
  "deal_dealer shuf r = Inr r' \<Longrightarrow> low_total (r_dealer r) < low_total (r_dealer r')"
  by (auto simp: deal_dealer_def low_total_add split: sum.splits)

termination player_turn
proof (relation "measure (\<lambda>(shuf, strat, r, can_dbl). nat (22 - low_total (r_player r)))",
    goal_cases)
  case 1
  show ?case by simp
next
  case (2 shuf strat r can_dbl offer asked d r1 r2)
  from 2 have "r1 = snd (decide strat (snd asked) can_dbl)"
    by (metis snd_conv)
  moreover from 2 have "r_player (snd asked) = r_player r"
    by (simp add: decide_player)
  ultimately have "r_player r1 = r_player r"
    by (simp add: decide_player)
  moreover from 2 have "low_total (r_player r1) < low_total (r_player r2)"
    by (simp add: deal_player_low_total)
  moreover from 2 have "low_total (r_player r2) \<le> 21"
    using low_total_le_hard_total [of "r_player r2"] by (simp add: is_bust_def)
  ultimately show ?case by simp
qed

declare player_turn.simps [simp del]

text \<open>The dealer's loop.\<close>

function dealer_turn :: "'g shuffler \<Rightarrow> ('s, 'g) Round \<Rightarrow> fault + ('s, 'g) Round" where
  "dealer_turn shuf r =
     (let tot = hard_total (r_dealer r); soft = is_soft (r_dealer r)
      in if tot < 17 then
           (case deal_dealer shuf r of Inl e \<Rightarrow> Inl e | Inr r1 \<Rightarrow> dealer_turn shuf r1)
         else if tot = 17 \<and> dealer_hits_soft17 (r_rules r) \<and> soft then
           (case deal_dealer shuf r of Inl e \<Rightarrow> Inl e | Inr r1 \<Rightarrow> dealer_turn shuf r1)
         else Inr r)"
  by pat_completeness auto
termination
proof (relation "measure (\<lambda>(shuf, r). nat (18 - low_total (r_dealer r)))", goal_cases)
  case 1
  show ?case by simp
next
  case (2 shuf r tot soft r1)
  then show ?case
    using deal_dealer_low_total [of shuf r r1] low_total_le_hard_total [of "r_dealer r"]
    by simp
next
  case (3 shuf r tot soft r1)
  then show ?case
    using deal_dealer_low_total [of shuf r r1] low_total_le_hard_total [of "r_dealer r"]
    by simp
qed

declare dealer_turn.simps [simp del]

text \<open>\<^verbatim>\<open>Round::play\<close>: the result and the round as \<^verbatim>\<open>play\<close> leaves it (the caller reads
  \<^verbatim>\<open>player()\<close> from it, and the shoe and the strategy live on).\<close>

definition play ::
  "'g shuffler \<Rightarrow> 's Strategy \<Rightarrow> ('s, 'g) Round \<Rightarrow> fault + (RoundResult \<times> ('s, 'g) Round)" where
  "play shuf strat r =
     (case initial_deal shuf r of
        Inl e \<Rightarrow> Inl e
      | Inr r1 \<Rightarrow>
          if peek_for_blackjack (r_rules r1) \<and> is_blackjack (r_dealer r1) then
            (if is_blackjack (r_player r1) then return_settle r1 Push
             else return_settle r1 DealerBJ)
          else if is_blackjack (r_player r1) then return_settle r1 PlayerBJ
          else
            (case player_turn shuf strat r1 (double_allowed (r_rules r1)) of
               Inl e \<Rightarrow> Inl e
             | Inr (Some oc, r2) \<Rightarrow> return_settle r2 oc
             | Inr (None, r2) \<Rightarrow>
                 (case dealer_turn shuf r2 of
                    Inl e \<Rightarrow> Inl e
                  | Inr r3 \<Rightarrow>
                      if is_bust (r_dealer r3) then return_settle r3 DealerBust
                      else
                        (let pt = hard_total (r_player r3); dt = hard_total (r_dealer r3)
                         in if pt > dt then return_settle r3 PlayerWin
                            else if pt < dt then return_settle r3 DealerWin
                            else return_settle r3 Push))))"

section \<open>Simulation\<close>

record SimStats =
  rounds :: int
  player_wins :: int
  dealer_wins :: int
  pushes :: int
  player_bj :: int
  dealer_bj :: int
  busts :: int
  surrenders :: int
  bankroll_cents :: int

definition zero_stats :: SimStats where
  "zero_stats = \<lparr> rounds = 0, player_wins = 0, dealer_wins = 0, pushes = 0, player_bj = 0,
     dealer_bj = 0, busts = 0, surrenders = 0, bankroll_cents = 0 \<rparr>"

text \<open>The \<^verbatim>\<open>switch\<close> over the outcome in the loop of \<^verbatim>\<open>simulate\<close>.\<close>

fun count_outcome :: "Outcome \<Rightarrow> SimStats \<Rightarrow> SimStats" where
  "count_outcome PlayerBJ st =
     st\<lparr> player_bj := player_bj st + 1, player_wins := player_wins st + 1 \<rparr>"
| "count_outcome DealerBJ st =
     st\<lparr> dealer_bj := dealer_bj st + 1, dealer_wins := dealer_wins st + 1 \<rparr>"
| "count_outcome DealerBust st =
     st\<lparr> player_wins := player_wins st + 1, busts := busts st + 1 \<rparr>"
| "count_outcome PlayerBust st =
     st\<lparr> dealer_wins := dealer_wins st + 1, busts := busts st + 1 \<rparr>"
| "count_outcome PlayerWin st = st\<lparr> player_wins := player_wins st + 1 \<rparr>"
| "count_outcome DealerWin st = st\<lparr> dealer_wins := dealer_wins st + 1 \<rparr>"
| "count_outcome Push st = st\<lparr> pushes := pushes st + 1 \<rparr>"
| "count_outcome PlayerSurrender st = st\<lparr> surrenders := surrenders st + 1 \<rparr>"

text \<open>The statements of the loop body after \<^verbatim>\<open>play\<close>. The stake, the difference and the
  new bankroll are \<^verbatim>\<open>int64_t\<close> results; the counters are incremented at most \<open>n\<close> times
  and stay inside \<^verbatim>\<open>int\<close>.\<close>

definition tally :: "int \<Rightarrow> SimStats \<Rightarrow> RoundResult \<Rightarrow> bool \<Rightarrow> fault + SimStats" where
  "tally bet st res dbl =
     (case (if dbl then ck64 (bet * 2) else Inr bet) of
        Inl e \<Rightarrow> Inl e
      | Inr stake \<Rightarrow>
          (case ck64 (payout_cents res - stake) of
             Inl e \<Rightarrow> Inl e
           | Inr net \<Rightarrow>
               (case ck64 (bankroll_cents st + net) of
                  Inl e \<Rightarrow> Inl e
                | Inr b \<Rightarrow>
                    Inr (count_outcome (outcome res)
                           (st\<lparr> rounds := rounds st + 1, bankroll_cents := b \<rparr>)))))"

text \<open>The loop of \<^verbatim>\<open>simulate\<close>, by the number of iterations left. Its state is the
  statistics, the one shoe and the strategy object.\<close>

fun sim_loop ::
  "'g shuffler \<Rightarrow> 's Strategy \<Rightarrow> Rules \<Rightarrow> int \<Rightarrow> nat \<Rightarrow> SimStats \<times> 'g Shoe \<times> 's
     \<Rightarrow> fault + (SimStats \<times> 'g Shoe \<times> 's)" where
  "sim_loop shuf strat rs bet 0 state = Inr state"
| "sim_loop shuf strat rs bet (Suc k) (st, sh, s) =
     (case play shuf strat (new_round rs sh s bet) of
        Inl e \<Rightarrow> Inl e
      | Inr (res, r) \<Rightarrow>
          (case tally bet st res (doubled (r_player r)) of
             Inl e \<Rightarrow> Inl e
           | Inr st' \<Rightarrow> sim_loop shuf strat rs bet k (st', r_shoe r, r_strat r)))"

text \<open>The body of \<^verbatim>\<open>simulate\<close> with a strategy given (\<open>strat\<close>, and the state \<open>s0\<close> of the
  strategy object passed in): the shoe is built and the loop runs.
  \<^verbatim>\<open>for (int i = 0; i < n; ++i)\<close> makes \<open>nat n\<close> iterations.\<close>

definition simulate_run ::
  "(nat \<Rightarrow> 'g) \<Rightarrow> 'g shuffler \<Rightarrow> int \<Rightarrow> Rules \<Rightarrow> nat \<Rightarrow> int \<Rightarrow> 's Strategy \<Rightarrow> 's
     \<Rightarrow> fault + (SimStats \<times> 'g Shoe \<times> 's)" where
  "simulate_run mk shuf n rs seed bet strat s0 =
     (case new_shoe mk shuf (num_decks rs) seed of
        Inl e \<Rightarrow> Inl e
      | Inr sh \<Rightarrow> sim_loop shuf strat rs bet (nat n) (zero_stats, sh, s0))"

text \<open>\<^verbatim>\<open>simulate\<close> returns the statistics. The shoe is a local and is gone; the strategy
  object is the caller's, and \<open>strategy_after\<close> is the state the call leaves it in.\<close>

definition simulate ::
  "(nat \<Rightarrow> 'g) \<Rightarrow> 'g shuffler \<Rightarrow> int \<Rightarrow> Rules \<Rightarrow> nat \<Rightarrow> int \<Rightarrow> 's Strategy \<Rightarrow> 's
     \<Rightarrow> fault + SimStats" where
  "simulate mk shuf n rs seed bet strat s0 =
     (case simulate_run mk shuf n rs seed bet strat s0 of
        Inl e \<Rightarrow> Inl e
      | Inr (st, sh', s') \<Rightarrow> Inr st)"

definition strategy_after ::
  "(nat \<Rightarrow> 'g) \<Rightarrow> 'g shuffler \<Rightarrow> int \<Rightarrow> Rules \<Rightarrow> nat \<Rightarrow> int \<Rightarrow> 's Strategy \<Rightarrow> 's
     \<Rightarrow> fault + 's" where
  "strategy_after mk shuf n rs seed bet strat s0 =
     (case simulate_run mk shuf n rs seed bet strat s0 of
        Inl e \<Rightarrow> Inl e
      | Inr (st, sh', s') \<Rightarrow> Inr s')"

text \<open>\<^verbatim>\<open>simulate\<close> with \<^verbatim>\<open>strategy == nullptr\<close>: the local \<^verbatim>\<open>AlwaysHitUnder17\<close>, which
  has no state.\<close>

definition simulate_default ::
  "(nat \<Rightarrow> 'g) \<Rightarrow> 'g shuffler \<Rightarrow> int \<Rightarrow> Rules \<Rightarrow> nat \<Rightarrow> int \<Rightarrow> fault + SimStats" where
  "simulate_default mk shuf n rs seed bet = simulate mk shuf n rs seed bet AlwaysHitUnder17 ()"

section \<open>Contracts and instances\<close>

text \<open>What the specification asks of \<^verbatim>\<open>std::shuffle\<close> as far as the cursor is concerned:
  the reordered sequence has the size of the old one.\<close>

definition keeps_size :: "'g shuffler \<Rightarrow> bool" where
  "keeps_size shuf = (\<forall>g xs. length (fst (shuf g xs)) = length xs)"

text \<open>The invariant of the shoe: the cursor is at most the size.\<close>

definition shoe_inv :: "'g Shoe \<Rightarrow> bool" where
  "shoe_inv sh = (s_next sh \<le> length (s_cards sh))"

text \<open>One iteration of the player's loop, in parts: whether the surrender offer is taken;
  the round after the offer (untouched when none is made); the decision then given; the round
  after that decision.\<close>

definition takes_surrender :: "'s Strategy \<Rightarrow> ('s, 'g) Round \<Rightarrow> bool \<Rightarrow> bool" where
  "takes_surrender strat r cd =
     (surrender (r_rules r) \<and> length (cards (r_player r)) = 2
      \<and> fst (decide strat r cd) = Surrender)"

definition after_offer :: "'s Strategy \<Rightarrow> ('s, 'g) Round \<Rightarrow> bool \<Rightarrow> ('s, 'g) Round" where
  "after_offer strat r cd =
     (if surrender (r_rules r) \<and> length (cards (r_player r)) = 2
      then snd (decide strat r cd) else r)"

definition decision :: "'s Strategy \<Rightarrow> ('s, 'g) Round \<Rightarrow> bool \<Rightarrow> Decision" where
  "decision strat r cd = fst (decide strat (after_offer strat r cd) cd)"

definition decided :: "'s Strategy \<Rightarrow> ('s, 'g) Round \<Rightarrow> bool \<Rightarrow> ('s, 'g) Round" where
  "decided strat r cd = snd (decide strat (after_offer strat r cd) cd)"

text \<open>A strategy wrapped so that its state records the situations it is asked about.\<close>

definition recording :: "'s Strategy \<Rightarrow> ('s \<times> Situation list) Strategy" where
  "recording strat sl sit = (case strat (fst sl) sit of (d, s') \<Rightarrow> (d, (s', snd sl @ [sit])))"

definition double_always :: "'s Strategy" where
  "double_always s sit = (Double, s)"

text \<open>The round \<open>r\<close> after \<open>n\<close> cards were drawn from its shoe, with the hands as given.\<close>

definition played :: "('s, 'g) Round \<Rightarrow> nat \<Rightarrow> Hand \<Rightarrow> Hand \<Rightarrow> ('s, 'g) Round" where
  "played r n ph dh = r\<lparr> r_shoe := (r_shoe r)\<lparr> s_next := n \<rparr>, r_player := ph, r_dealer := dh \<rparr>"

text \<open>The rules and strategies of the instances.\<close>

definition one_deck_rules :: Rules where
  "one_deck_rules = default_rules\<lparr> num_decks := 1 \<rparr>"

definition stand_always :: "'s Strategy" where
  "stand_always s sit = (Stand, s)"

text \<open>A hand holding the given cards.\<close>

definition hand_of :: "Card list \<Rightarrow> Hand" where
  "hand_of cs = \<lparr> cards = cs, doubled = False, surrendered = False \<rparr>"

text \<open>A shuffler for the instances: it puts the cards at the positions \<open>tops\<close> on top, in
  that order, and the others below in their old order. It leaves the generator alone. In
  the order of \<^verbatim>\<open>reset\<close> the card of rank \<open>k\<close> (Two is 0, Ace is 12) and suit \<open>j\<close>
  (Clubs is 0, Spades is 3) is at position \<open>13 * j + k\<close>.\<close>

definition stack_shuffle :: "nat list \<Rightarrow> 'g shuffler" where
  "stack_shuffle tops g xs =
     (let front = remdups (filter (\<lambda>i. i < length xs) tops)
      in (map (\<lambda>i. xs ! i) (front @ filter (\<lambda>i. i \<notin> set front) [0..<length xs]), g))"

text \<open>A one-deck shoe stacked that way, and a round about to be played on it.\<close>

definition stacked_shoe :: "nat list \<Rightarrow> unit Shoe" where
  "stacked_shoe tops = \<lparr> s_cards = fst (stack_shuffle tops () one_deck), s_next = 0, s_rng = () \<rparr>"

definition stacked_round :: "nat list \<Rightarrow> Rules \<Rightarrow> 's \<Rightarrow> int \<Rightarrow> ('s, unit) Round" where
  "stacked_round tops rs s bet = new_round rs (stacked_shoe tops) s bet"

text \<open>The round \<open>r\<close> after the initial deal has drawn four cards: the hands are as given.\<close>

definition dealt :: "('s, unit) Round \<Rightarrow> Card list \<Rightarrow> Card list \<Rightarrow> ('s, unit) Round" where
  "dealt r ps ds = r\<lparr> r_shoe := (r_shoe r)\<lparr> s_next := 4 \<rparr>, r_player := hand_of ps,
     r_dealer := hand_of ds \<rparr>"

text \<open>A situation asked about during a player turn that starts at round \<open>r\<close> with doubling
  legal or not (\<open>cd\<close>): doubling is offered exactly when it was legal at the start and no
  card has been drawn since.\<close>

definition first_action :: "('s, 'g) Round \<Rightarrow> bool \<Rightarrow> Situation \<Rightarrow> bool" where
  "first_action r cd sit =
     (can_double sit = (cd \<and> length (cards (player sit)) = length (cards (r_player r)))
      \<and> length (cards (r_player r)) \<le> length (cards (player sit)))"

text \<open>Instances for the player's turn: the situations put to the strategy against a dealer
  holding 10 and 7, and a round in which the default strategy hits twice (2 and 3, then 4,
  then 9).\<close>

definition asked_with :: "Card list \<Rightarrow> bool \<Rightarrow> Situation" where
  "asked_with ps cd = \<lparr> player = hand_of ps, dealer = hand_of [Card Ten Clubs, Card Seven Clubs],
     rules = one_deck_rules, can_double = cd \<rparr>"

definition hit_twice :: "'s \<Rightarrow> ('s, unit) Round" where
  "hit_twice s = stacked_round [0, 8, 1, 5, 2, 7] one_deck_rules s 100"

definition hit_twice_log :: "Situation list" where
  "hit_twice_log =
     [asked_with [Card Two Clubs, Card Three Clubs] True,
      asked_with [Card Two Clubs, Card Three Clubs, Card Four Clubs] False,
      asked_with [Card Two Clubs, Card Three Clubs, Card Four Clubs, Card Nine Clubs] False]"

text \<open>Instances for the double-down: 9 and Jack doubled into a King, against 10 and Queen, and
  against 10 and 6 drawing the Queen.\<close>

definition nine_jack_king :: Hand where
  "nine_jack_king = (hand_of [Card Nine Clubs, Card Jack Clubs, Card King Clubs])\<lparr> doubled := True \<rparr>"

text \<open>A strategy wrapped so that its state counts the calls of \<^verbatim>\<open>decide\<close>.\<close>

definition counting :: "'s Strategy \<Rightarrow> ('s \<times> nat) Strategy" where
  "counting strat sn sit = (case strat (fst sn) sit of (d, s') \<Rightarrow> (d, (s', Suc (snd sn))))"

text \<open>The first round on a fresh shoe, as the first iteration of \<^verbatim>\<open>simulate\<close> plays it.\<close>

definition first_round ::
  "(nat \<Rightarrow> 'g) \<Rightarrow> 'g shuffler \<Rightarrow> Rules \<Rightarrow> nat \<Rightarrow> int \<Rightarrow> 's Strategy \<Rightarrow> 's
     \<Rightarrow> fault + (RoundResult \<times> ('s, 'g) Round)" where
  "first_round mk shuf rs seed bet strat s0 =
     (case new_shoe mk shuf (num_decks rs) seed of
        Inl e \<Rightarrow> Inl e
      | Inr sh \<Rightarrow> play shuf strat (new_round rs sh s0 bet))"

text \<open>The result of a round with the two hands it leaves.\<close>

definition with_hands ::
  "fault + (RoundResult \<times> ('s, 'g) Round) \<Rightarrow> fault + (RoundResult \<times> Hand \<times> Hand)" where
  "with_hands x = (case x of Inl e \<Rightarrow> Inl e | Inr (res, r) \<Rightarrow> Inr (res, r_player r, r_dealer r))"

definition ace_six :: Hand where
  "ace_six = hand_of [Card Ace Clubs, Card Six Hearts]"

text \<open>A one-deck shoe with every card drawn.\<close>

definition spent_deck :: "unit Shoe" where
  "spent_deck = \<lparr> s_cards = one_deck, s_next = 52, s_rng = () \<rparr>"

text \<open>The settlement table of the specification. The quotients truncate.\<close>

fun spec_payout :: "Outcome \<Rightarrow> bool \<Rightarrow> int \<Rightarrow> int \<Rightarrow> int \<Rightarrow> int" where
  "spec_payout PlayerBJ dbl bet num den = bet + cdiv (bet * num) den"
| "spec_payout DealerBJ dbl bet num den = 0"
| "spec_payout PlayerBust dbl bet num den = 0"
| "spec_payout DealerBust dbl bet num den = (if dbl then bet * 4 else bet * 2)"
| "spec_payout PlayerWin dbl bet num den = (if dbl then bet * 4 else bet * 2)"
| "spec_payout DealerWin dbl bet num den = 0"
| "spec_payout Push dbl bet num den = (if dbl then bet * 2 else bet)"
| "spec_payout PlayerSurrender dbl bet num den = cdiv bet 2"

text \<open>When the arithmetic of \<^verbatim>\<open>settle\<close> is defined for an outcome: the payout ratio has a
  denominator other than zero and no \<^verbatim>\<open>int64_t\<close> operation on the way overflows.\<close>

fun payout_defined :: "Rules \<Rightarrow> int \<Rightarrow> bool \<Rightarrow> Outcome \<Rightarrow> bool" where
  "payout_defined rs bet dbl PlayerBJ =
     (blackjack_pays_den rs \<noteq> 0 \<and> in_int64 (bet * blackjack_pays_num rs)
      \<and> in_int64 (cdiv (bet * blackjack_pays_num rs) (blackjack_pays_den rs))
      \<and> in_int64 (bet + cdiv (bet * blackjack_pays_num rs) (blackjack_pays_den rs)))"
| "payout_defined rs bet dbl DealerBust = (in_int64 (bet * 2) \<and> (dbl \<longrightarrow> in_int64 (bet * 4)))"
| "payout_defined rs bet dbl PlayerWin = (in_int64 (bet * 2) \<and> (dbl \<longrightarrow> in_int64 (bet * 4)))"
| "payout_defined rs bet dbl Push = (dbl \<longrightarrow> in_int64 (bet * 2))"
| "payout_defined rs bet dbl oc = True"

text \<open>A round about to be settled: bet, payout ratio and whether the player doubled.\<close>

definition table_round :: "int \<Rightarrow> int \<Rightarrow> int \<Rightarrow> bool \<Rightarrow> (unit, unit) Round" where
  "table_round bet num den dbl =
     \<lparr> r_rules = default_rules\<lparr> blackjack_pays_num := num, blackjack_pays_den := den \<rparr>,
       r_shoe = \<lparr> s_cards = one_deck, s_next = 0, s_rng = () \<rparr>, r_strat = (), r_bet = bet,
       r_player = empty_hand\<lparr> doubled := dbl \<rparr>, r_dealer = empty_hand \<rparr>"

text \<open>The folding of one round into the statistics as the specification words it,
  counter by counter: the round count goes up by one; each outcome counter goes up when the
  outcome is one it counts; the bankroll gains the payout less the stake (twice the bet when
  the hand was doubled). A round is its result and whether the player's hand was doubled.\<close>

definition spec_fold :: "int \<Rightarrow> SimStats \<Rightarrow> RoundResult \<times> bool \<Rightarrow> SimStats" where
  "spec_fold bet st x =
     (let oc = outcome (fst x)
      in \<lparr> rounds = rounds st + 1,
           player_wins = player_wins st + (if oc \<in> {PlayerBJ, DealerBust, PlayerWin} then 1 else 0),
           dealer_wins = dealer_wins st + (if oc \<in> {DealerBJ, PlayerBust, DealerWin} then 1 else 0),
           pushes = pushes st + (if oc = Push then 1 else 0),
           player_bj = player_bj st + (if oc = PlayerBJ then 1 else 0),
           dealer_bj = dealer_bj st + (if oc = DealerBJ then 1 else 0),
           busts = busts st + (if oc \<in> {DealerBust, PlayerBust} then 1 else 0),
           surrenders = surrenders st + (if oc = PlayerSurrender then 1 else 0),
           bankroll_cents = bankroll_cents st
             + (payout_cents (fst x) - (if snd x then 2 * bet else bet)) \<rparr>)"

text \<open>The rounds of a simulation, played one after the other against the one shoe: their
  results, each with the doubled flag of the player's hand.\<close>

fun play_rounds ::
  "'g shuffler \<Rightarrow> 's Strategy \<Rightarrow> Rules \<Rightarrow> int \<Rightarrow> nat \<Rightarrow> 'g Shoe \<times> 's
     \<Rightarrow> fault + (RoundResult \<times> bool) list" where
  "play_rounds shuf strat rs bet 0 state = Inr []"
| "play_rounds shuf strat rs bet (Suc k) (sh, s) =
     (case play shuf strat (new_round rs sh s bet) of
        Inl e \<Rightarrow> Inl e
      | Inr (res, r) \<Rightarrow>
          (case play_rounds shuf strat rs bet k (r_shoe r, r_strat r) of
             Inl e \<Rightarrow> Inl e
           | Inr xs \<Rightarrow> Inr ((res, doubled (r_player r)) # xs)))"

text \<open>The rounds that \<^verbatim>\<open>simulate\<close> plays for its arguments.\<close>

definition round_results ::
  "(nat \<Rightarrow> 'g) \<Rightarrow> 'g shuffler \<Rightarrow> int \<Rightarrow> Rules \<Rightarrow> nat \<Rightarrow> int \<Rightarrow> 's Strategy \<Rightarrow> 's
     \<Rightarrow> fault + (RoundResult \<times> bool) list" where
  "round_results mk shuf n rs seed bet strat s0 =
     (case new_shoe mk shuf (num_decks rs) seed of
        Inl e \<Rightarrow> Inl e
      | Inr sh \<Rightarrow> play_rounds shuf strat rs bet (nat n) (sh, s0))"

text \<open>A bound on what one round can move the bankroll: the payout is at most
  \<open>\<bar>bet\<bar> * (\<bar>num\<bar> + 4)\<close> and the stake at most \<open>2 * \<bar>bet\<bar>\<close>.\<close>

definition net_bound :: "Rules \<Rightarrow> int \<Rightarrow> int" where
  "net_bound rs bet = \<bar>bet\<bar> * (\<bar>blackjack_pays_num rs\<bar> + 6)"

text \<open>The shoe of the round holds cards.\<close>

definition stocked :: "('s, 'g) Round \<Rightarrow> bool" where
  "stocked r = (s_cards (r_shoe r) \<noteq> [])"

text \<open>A strategy that is stateless by contract: its decision does not depend on the state
  of the strategy object.\<close>

definition stateless :: "'s Strategy \<Rightarrow> bool" where
  "stateless strat = (\<forall>s s' sit. fst (strat s sit) = fst (strat s' sit))"

text \<open>A round without its strategy object, and the results of the stages of \<^verbatim>\<open>play\<close> and
  of the simulation loop seen that way.\<close>

definition outside :: "('s, 'g) Round \<Rightarrow> Rules \<times> 'g Shoe \<times> int \<times> Hand \<times> Hand" where
  "outside r = (r_rules r, r_shoe r, r_bet r, r_player r, r_dealer r)"

definition turn_outside ::
  "fault + (Outcome option \<times> ('s, 'g) Round)
     \<Rightarrow> fault + (Outcome option \<times> Rules \<times> 'g Shoe \<times> int \<times> Hand \<times> Hand)" where
  "turn_outside x = (case x of Inl e \<Rightarrow> Inl e | Inr (oc, r) \<Rightarrow> Inr (oc, outside r))"

definition round_outside ::
  "fault + ('s, 'g) Round \<Rightarrow> fault + (Rules \<times> 'g Shoe \<times> int \<times> Hand \<times> Hand)" where
  "round_outside x = (case x of Inl e \<Rightarrow> Inl e | Inr r \<Rightarrow> Inr (outside r))"

definition play_outside ::
  "fault + (RoundResult \<times> ('s, 'g) Round)
     \<Rightarrow> fault + (RoundResult \<times> Rules \<times> 'g Shoe \<times> int \<times> Hand \<times> Hand)" where
  "play_outside x = (case x of Inl e \<Rightarrow> Inl e | Inr (res, r) \<Rightarrow> Inr (res, outside r))"

text \<open>The condition under which the dealer's loop draws.\<close>

definition dealer_draws :: "('s, 'g) Round \<Rightarrow> bool" where
  "dealer_draws r = (hard_total (r_dealer r) < 17
     \<or> hard_total (r_dealer r) = 17 \<and> dealer_hits_soft17 (r_rules r) \<and> is_soft (r_dealer r))"

text \<open>\<^verbatim>\<open>play\<close> after the initial deal, for proofs about two runs.\<close>

definition play_on ::
  "'g shuffler \<Rightarrow> 's Strategy \<Rightarrow> ('s, 'g) Round \<Rightarrow> fault + (RoundResult \<times> ('s, 'g) Round)" where
  "play_on shuf strat r1 =
     (if peek_for_blackjack (r_rules r1) \<and> is_blackjack (r_dealer r1) then
        (if is_blackjack (r_player r1) then return_settle r1 Push
         else return_settle r1 DealerBJ)
      else if is_blackjack (r_player r1) then return_settle r1 PlayerBJ
      else
        (case player_turn shuf strat r1 (double_allowed (r_rules r1)) of
           Inl e \<Rightarrow> Inl e
         | Inr (Some oc, r2) \<Rightarrow> return_settle r2 oc
         | Inr (None, r2) \<Rightarrow>
             (case dealer_turn shuf r2 of
                Inl e \<Rightarrow> Inl e
              | Inr r3 \<Rightarrow>
                  return_settle r3
                    (if is_bust (r_dealer r3) then DealerBust
                     else if hard_total (r_player r3) > hard_total (r_dealer r3) then PlayerWin
                     else if hard_total (r_player r3) < hard_total (r_dealer r3) then DealerWin
                     else Push))))"

definition loop_outside ::
  "fault + (SimStats \<times> 'g Shoe \<times> 's) \<Rightarrow> fault + (SimStats \<times> 'g Shoe)" where
  "loop_outside x = (case x of Inl e \<Rightarrow> Inl e | Inr (st, sh, s) \<Rightarrow> Inr (st, sh))"

text \<open>A stack for three rounds under the default strategy: Ace and King against 5 and 10;
  5 and 6 doubled into a 9 against 10 and 7; 10 and 8 against 6 and 9 drawing a Jack.\<close>

definition three_rounds :: "nat list" where
  "three_rounds = [12, 3, 11, 21, 16, 8, 4, 5, 7, 34, 17, 6, 20, 9]"

section \<open>Hand totals\<close>


text \<open>The description of \<^verbatim>\<open>hard_total\<close> in the specification, card by card: the values
  with every Ace at 11; while their sum exceeds 21 and an Ace still stands at 11, one such
  Ace is marked reduced (its value becomes 1).\<close>

fun reduce_one :: "int list \<Rightarrow> int list" where
  "reduce_one [] = []"
| "reduce_one (v # vs) = (if v = 11 then 1 # vs else v # reduce_one vs)"


lemma reduce_one_count:
  "11 \<in> set vs \<Longrightarrow> length (filter (\<lambda>v. v = 11) (reduce_one vs)) < length (filter (\<lambda>v. v = 11) vs)"
  by (induction vs) auto


function reduce_while :: "int list \<Rightarrow> int list" where
  "reduce_while vs =
     (if sum_list vs > 21 \<and> 11 \<in> set vs then reduce_while (reduce_one vs) else vs)"
  by pat_completeness auto
termination
  by (relation "measure (\<lambda>vs. length (filter (\<lambda>v. v = 11) vs))") (auto simp: reduce_one_count)

declare reduce_while.simps [simp del]


text \<open>The contract of \<^verbatim>\<open>is_soft\<close> in the specification: in that total, an Ace still
  stands at 11.\<close>

definition spec_is_soft :: "Hand \<Rightarrow> bool" where
  "spec_is_soft h = (11 \<in> set (reduce_while (map (\<lambda>c. card_value (rank c)) (cards h))))"
















section \<open>Softness\<close>

text \<open>In \<^verbatim>\<open>is_soft\<close> the value \<open>base\<close> is computed exactly as \<^verbatim>\<open>hard_total()\<close> computes its
  result, so the last conjunct of the predicate never holds.\<close>

lemma is_soft_never: "\<not> is_soft h"
  by (simp add: is_soft_def hard_total_def list_ex_iff)

text \<open>C5 fails on the code: Ace and 6 total 17 with the Ace at 11, a soft hand by the
  contract, and \<^verbatim>\<open>is_soft\<close> returns false.\<close>

theorem is_soft_misses_soft17:
  "\<not> is_soft ace_six \<and> hard_total ace_six = 17 \<and> spec_is_soft ace_six"
  by code_simp

text \<open>C4 fails on the code for the same reason: under the default rules (the dealer hits
  soft 17) a dealer dealt Ace and 6 draws no card. The shoe is one deck with 5, Ace, 10, 6
  on top, dealt to player, dealer, player, dealer; the player stands on 15.\<close>

theorem dealer_stands_on_soft17:
  "dealer_hits_soft17 one_deck_rules \<and> spec_is_soft ace_six
   \<and> with_hands (first_round (\<lambda>seed. ()) (stack_shuffle [3, 12, 21, 30]) one_deck_rules 42 100
                    stand_always ())
     = Inr (\<lparr> outcome = DealerWin, player_total = 15, dealer_total = 17, payout_cents = 0 \<rparr>,
            hand_of [Card Five Clubs, Card Ten Diamonds], ace_six)"
  by code_simp

section \<open>The cursor of the shoe\<close>

lemma length_rest:
  assumes "distinct front" and "set front \<subseteq> {0..<n}"
  shows "length front + length (filter (\<lambda>i. i \<notin> set front) [0..<n]) = n"
proof -
  have "length (filter (\<lambda>i. i \<in> set front) [0..<n]) = card ({i. i \<in> set front} \<inter> set [0..<n])"
    by (rule distinct_length_filter) simp
  also have "{i. i \<in> set front} \<inter> set [0..<n] = set front"
    using assms(2) by auto
  also have "card (set front) = length front"
    using assms(1) by (rule distinct_card)
  finally show ?thesis
    using sum_length_filter_compl [of "\<lambda>i. i \<in> set front" "[0..<n]"] by simp
qed

lemma keeps_size_stack: "keeps_size (stack_shuffle tops)"
proof -
  have "length (fst (stack_shuffle tops g xs)) = length xs" for g :: 'a and xs
  proof -
    define front where "front = remdups (filter (\<lambda>i. i < length xs) tops)"
    have "distinct front" "set front \<subseteq> {0..<length xs}"
      by (auto simp: front_def)
    from length_rest [OF this] show ?thesis
      by (simp add: stack_shuffle_def Let_def flip: front_def)
  qed
  then show ?thesis
    by (simp add: keeps_size_def)
qed

lemma length_one_deck: "length one_deck = 52"
  by (simp add: one_deck_def all_ranks_def all_suits_def)

lemma length_decks: "length (concat (replicate n one_deck)) = n * 52"
  by (induction n) (simp_all add: length_one_deck)

lemma shuffle_fields:
  "s_cards (shuffle shuf sh) = fst (shuf (s_rng sh) (s_cards sh))"
  "s_rng (shuffle shuf sh) = snd (shuf (s_rng sh) (s_cards sh))"
  "s_next (shuffle shuf sh) = s_next sh"
  by (simp_all add: shuffle_def split: prod.split)

lemma shuffle_length: "keeps_size shuf \<Longrightarrow> length (s_cards (shuffle shuf sh)) = length (s_cards sh)"
  by (simp add: shuffle_fields keeps_size_def)

lemma reset_shoe:
  "keeps_size shuf \<Longrightarrow> reset shuf decks sh0 = Inr sh \<Longrightarrow>
   s_next sh = 0 \<and> length (s_cards sh) = nat decks * 52"
  by (auto simp: reset_def shuffle_length length_decks split: if_splits)

lemma draw_inside:
  "s_next sh < length (s_cards sh) \<Longrightarrow>
   draw shuf sh = Inr (s_cards sh ! s_next sh, sh\<lparr> s_next := s_next sh + 1 \<rparr>)"
  by (simp add: draw_def)

lemma draw_at_end:
  "keeps_size shuf \<Longrightarrow> length (s_cards sh) \<le> s_next sh \<Longrightarrow> s_cards sh \<noteq> [] \<Longrightarrow>
   draw shuf sh = Inr (s_cards (shuffle shuf sh) ! 0, (shuffle shuf sh)\<lparr> s_next := 1 \<rparr>)"
  by (simp add: draw_def shuffle_length Let_def)

lemma draw_shoe:
  assumes "keeps_size shuf" and "draw shuf sh = Inr (c, sh')"
  shows "length (s_cards sh') = length (s_cards sh) \<and> shoe_inv sh' \<and> 0 < s_next sh'"
  using assms
  by (auto simp: draw_def Let_def shoe_inv_def shuffle_length Suc_le_eq split: if_splits)

lemma draw_returns:
  "keeps_size shuf \<Longrightarrow> s_cards sh \<noteq> [] \<Longrightarrow> \<exists>c sh'. draw shuf sh = Inr (c, sh')"
  by (cases "s_next sh < length (s_cards sh)") (simp_all add: draw_inside draw_at_end)

lemma remaining_inv:
  "shoe_inv sh \<Longrightarrow> length (s_cards sh) < 2 ^ 64 \<Longrightarrow> remaining sh = length (s_cards sh) - s_next sh"
  unfolding remaining_def shoe_inv_def
  by (simp add: nat_diff_distrib' of_nat_diff flip: of_nat_diff)

text \<open>C8. With a shuffle that keeps the size, every shoe that construction, \<^verbatim>\<open>reset\<close>,
  \<^verbatim>\<open>shuffle\<close> or \<^verbatim>\<open>draw\<close> returns has its cursor within the size. With cards left,
  \<^verbatim>\<open>draw\<close> returns the card at the cursor and advances the cursor. With the cursor at the
  end of a shoe that has cards, it shuffles the whole sequence, returns the first card of
  the new order and leaves the cursor at 1, so \<^verbatim>\<open>remaining\<close> is the size less one.
  \<^verbatim>\<open>remaining\<close> is the size less the cursor.\<close>

theorem shoe_cursor_invariant:
  assumes "keeps_size shuf"
  shows "(new_shoe mk shuf decks seed = Inr sh1 \<longrightarrow> shoe_inv sh1)
    \<and> (reset shuf decks sh = Inr sh2 \<longrightarrow> shoe_inv sh2)
    \<and> (shoe_inv sh \<longrightarrow> shoe_inv (shuffle shuf sh))
    \<and> (draw shuf sh = Inr (c, sh3) \<longrightarrow> shoe_inv sh3)
    \<and> (s_next sh < length (s_cards sh) \<longrightarrow>
         draw shuf sh = Inr (s_cards sh ! s_next sh, sh\<lparr> s_next := s_next sh + 1 \<rparr>))
    \<and> (s_next sh = length (s_cards sh) \<and> s_cards sh \<noteq> [] \<and> length (s_cards sh) < 2 ^ 64 \<longrightarrow>
         draw shuf sh = Inr (hd (s_cards (shuffle shuf sh)), (shuffle shuf sh)\<lparr> s_next := 1 \<rparr>)
         \<and> remaining ((shuffle shuf sh)\<lparr> s_next := 1 \<rparr>) = length (s_cards sh) - 1)
    \<and> (shoe_inv sh \<and> length (s_cards sh) < 2 ^ 64 \<longrightarrow>
         remaining sh = length (s_cards sh) - s_next sh)"
proof (intro conjI impI)
  assume "new_shoe mk shuf decks seed = Inr sh1"
  with assms show "shoe_inv sh1"
    using reset_shoe [of shuf decks _ sh1] by (simp add: new_shoe_def shoe_inv_def)
next
  assume "reset shuf decks sh = Inr sh2"
  with assms show "shoe_inv sh2"
    using reset_shoe [of shuf decks sh sh2] by (simp add: shoe_inv_def)
next
  assume "shoe_inv sh"
  with assms show "shoe_inv (shuffle shuf sh)"
    using shuffle_length [of shuf sh] by (simp add: shoe_inv_def shuffle_fields)
next
  assume "draw shuf sh = Inr (c, sh3)"
  with assms show "shoe_inv sh3"
    by (simp add: draw_shoe)
next
  assume "s_next sh < length (s_cards sh)"
  then show "draw shuf sh = Inr (s_cards sh ! s_next sh, sh\<lparr> s_next := s_next sh + 1 \<rparr>)"
    by (rule draw_inside)
next
  assume a: "s_next sh = length (s_cards sh) \<and> s_cards sh \<noteq> [] \<and> length (s_cards sh) < 2 ^ 64"
  then have ne: "s_cards (shuffle shuf sh) \<noteq> []"
    using shuffle_length [OF assms, of sh] by (metis length_0_conv)
  from a assms show "draw shuf sh = Inr (hd (s_cards (shuffle shuf sh)), (shuffle shuf sh)\<lparr> s_next := 1 \<rparr>)"
    using ne by (simp add: draw_at_end hd_conv_nth)
  from a have "0 < length (s_cards sh)" by simp
  with a assms show "remaining ((shuffle shuf sh)\<lparr> s_next := 1 \<rparr>) = length (s_cards sh) - 1"
    using remaining_inv [of "(shuffle shuf sh)\<lparr> s_next := 1 \<rparr>"]
    by (simp add: shoe_inv_def shuffle_length Suc_leI)
next
  assume "shoe_inv sh \<and> length (s_cards sh) < 2 ^ 64"
  then show "remaining sh = length (s_cards sh) - s_next sh"
    by (simp add: remaining_inv)
qed

text \<open>C8, instances: a fresh one-deck shoe, and the draw from a spent one.\<close>

theorem shoe_cursor_invariant_witness:
  "keeps_size (stack_shuffle [3] :: unit shuffler)
   \<and> s_next spent_deck = length (s_cards spent_deck) \<and> s_cards spent_deck \<noteq> []
   \<and> length (s_cards spent_deck) < 2 ^ 64 \<and> shoe_inv spent_deck
   \<and> remaining spent_deck = 0
   \<and> draw (stack_shuffle [3]) spent_deck
       = Inr (Card Five Clubs, (shuffle (stack_shuffle [3]) spent_deck)\<lparr> s_next := 1 \<rparr>)
   \<and> remaining ((shuffle (stack_shuffle [3]) spent_deck)\<lparr> s_next := 1 \<rparr>) = 51"
proof -
  have size: "length (s_cards spent_deck) = 52" "s_next spent_deck = 52"
    by (simp_all add: spent_deck_def length_one_deck)
  have first: "hd (s_cards (shuffle (stack_shuffle [3]) spent_deck)) = Card Five Clubs"
    by code_simp
  from size have ne: "s_cards spent_deck \<noteq> []"
    by auto
  show ?thesis
    using shoe_cursor_invariant [OF keeps_size_stack [of "[3]"], where sh = spent_deck]
    by (auto simp: size first ne keeps_size_stack shoe_inv_def)
qed

section \<open>Settlement\<close>

lemma cdiv_2_in_int64: "in_int64 b \<Longrightarrow> in_int64 (cdiv b 2)"
  unfolding in_int64_def cdiv_def
  by (cases "b \<ge> 0") (auto simp: sgn_if)

lemma settle_payout_table:
  "in_int64 bet \<Longrightarrow> payout_defined rs bet dbl oc \<Longrightarrow>
   settle_payout rs bet dbl oc
     = Inr (spec_payout oc dbl bet (blackjack_pays_num rs) (blackjack_pays_den rs))"
  by (cases oc) (auto simp: ck64_def div64_def cdiv_2_in_int64)

lemma settle_payout_defined:
  "in_int64 bet \<Longrightarrow> settle_payout rs bet dbl oc = Inr p \<Longrightarrow> payout_defined rs bet dbl oc"
  by (cases oc) (auto simp: ck64_def div64_def split: if_splits sum.splits)

lemma settle_table:
  "in_int64 (r_bet r) \<Longrightarrow> payout_defined (r_rules r) (r_bet r) (doubled (r_player r)) oc \<Longrightarrow>
   settle r oc = Inr \<lparr> outcome = oc, player_total = hard_total (r_player r),
     dealer_total = hard_total (r_dealer r),
     payout_cents = spec_payout oc (doubled (r_player r)) (r_bet r)
       (blackjack_pays_num (r_rules r)) (blackjack_pays_den (r_rules r)) \<rparr>"
  by (simp add: settle_def settle_payout_table)

text \<open>The condition is exact: with the bet an \<^verbatim>\<open>int64_t\<close> value, \<^verbatim>\<open>settle\<close> returns a result
  if and only if its arithmetic is defined.\<close>

lemma settle_returns_iff:
  "in_int64 (r_bet r) \<Longrightarrow>
   (\<exists>res. settle r oc = Inr res)
     \<longleftrightarrow> payout_defined (r_rules r) (r_bet r) (doubled (r_player r)) oc"
  using settle_payout_defined [of "r_bet r" "r_rules r" "doubled (r_player r)" oc]
    settle_table [of r oc]
  by (auto simp: settle_def split: sum.splits)

lemma hard_total_empty: "hard_total empty_hand = 0"
  by code_simp

text \<open>C2. For every outcome, doubled flag, bet and payout ratio for which the arithmetic of
  \<^verbatim>\<open>settle\<close> is defined, \<^verbatim>\<open>settle\<close> returns a result whose payout is the entry of the
  settlement table, together with the outcome and the two hard totals.\<close>

theorem settle_pays_table:
  assumes "in_int64 (r_bet r)"
    and "payout_defined (r_rules r) (r_bet r) (doubled (r_player r)) oc"
  shows "settle r oc = Inr \<lparr> outcome = oc, player_total = hard_total (r_player r),
           dealer_total = hard_total (r_dealer r),
           payout_cents = spec_payout oc (doubled (r_player r)) (r_bet r)
             (blackjack_pays_num (r_rules r)) (blackjack_pays_den (r_rules r)) \<rparr>"
  using assms by (rule settle_table)

text \<open>C2, instances: a blackjack on 100 pays 250 at 3:2 and 220 at 6:5; a surrender on 101
  pays 50; a doubled win on 100 pays 400; a doubled loss pays 0; a push returns the 100.\<close>

theorem settle_pays_table_witness:
  "in_int64 100 \<and> in_int64 101
   \<and> payout_defined (r_rules (table_round 100 3 2 False)) 100 False PlayerBJ
   \<and> payout_defined (r_rules (table_round 100 6 5 False)) 100 False PlayerBJ
   \<and> payout_defined (r_rules (table_round 100 3 2 True)) 100 True PlayerWin
   \<and> settle (table_round 100 3 2 False) PlayerBJ
       = Inr \<lparr> outcome = PlayerBJ, player_total = 0, dealer_total = 0, payout_cents = 250 \<rparr>
   \<and> settle (table_round 100 6 5 False) PlayerBJ
       = Inr \<lparr> outcome = PlayerBJ, player_total = 0, dealer_total = 0, payout_cents = 220 \<rparr>
   \<and> settle (table_round 101 3 2 False) PlayerSurrender
       = Inr \<lparr> outcome = PlayerSurrender, player_total = 0, dealer_total = 0,
               payout_cents = 50 \<rparr>
   \<and> settle (table_round 100 3 2 True) PlayerWin
       = Inr \<lparr> outcome = PlayerWin, player_total = 0, dealer_total = 0, payout_cents = 400 \<rparr>
   \<and> settle (table_round 100 3 2 True) DealerWin
       = Inr \<lparr> outcome = DealerWin, player_total = 0, dealer_total = 0, payout_cents = 0 \<rparr>
   \<and> settle (table_round 100 3 2 False) Push
       = Inr \<lparr> outcome = Push, player_total = 0, dealer_total = 0, payout_cents = 100 \<rparr>"
proof -
  have empty: "hard_total (empty_hand\<lparr> doubled := dbl \<rparr>) = 0" for dbl
    using hard_total_empty by (simp add: hard_total_def empty_hand_def)
  show ?thesis
    using settle_pays_table [of "table_round 100 3 2 False" PlayerBJ]
      settle_pays_table [of "table_round 100 6 5 False" PlayerBJ]
      settle_pays_table [of "table_round 101 3 2 False" PlayerSurrender]
      settle_pays_table [of "table_round 100 3 2 True" PlayerWin]
      settle_pays_table [of "table_round 100 3 2 True" DealerWin]
      settle_pays_table [of "table_round 100 3 2 False" Push]
    by (simp add: table_round_def default_rules_def in_int64_def cdiv_def empty hard_total_empty)
qed

section \<open>The round\<close>

lemma deal_player_fields:
  assumes "deal_player shuf r = Inr r'"
  shows "r_rules r' = r_rules r" "r_bet r' = r_bet r" "r_strat r' = r_strat r"
    "r_dealer r' = r_dealer r" "doubled (r_player r') = doubled (r_player r)"
    "surrendered (r_player r') = surrendered (r_player r)"
    "length (cards (r_player r')) = Suc (length (cards (r_player r)))"
  using assms by (auto simp: deal_player_def add_def split: sum.splits)

lemma deal_dealer_fields:
  assumes "deal_dealer shuf r = Inr r'"
  shows "r_rules r' = r_rules r" "r_bet r' = r_bet r" "r_strat r' = r_strat r"
    "r_player r' = r_player r"
    "length (cards (r_dealer r')) = Suc (length (cards (r_dealer r)))"
  using assms by (auto simp: deal_dealer_def add_def split: sum.splits)

lemma initial_deal_fields:
  assumes "initial_deal shuf r = Inr r1"
  shows "r_rules r1 = r_rules r" "r_bet r1 = r_bet r" "r_strat r1 = r_strat r"
    "doubled (r_player r1) = False" "surrendered (r_player r1) = False"
    "length (cards (r_player r1)) = 2" "length (cards (r_dealer r1)) = 2"
proof -
  from assms obtain ra rb rc where
    a: "deal_player shuf (r\<lparr> r_player := empty_hand, r_dealer := empty_hand \<rparr>) = Inr ra" and
    b: "deal_dealer shuf ra = Inr rb" and
    c: "deal_player shuf rb = Inr rc" and
    d: "deal_dealer shuf rc = Inr r1"
    by (auto simp: initial_deal_def split: sum.splits)
  note fa = deal_player_fields [OF a] and fb = deal_dealer_fields [OF b]
    and fc = deal_player_fields [OF c] and fd = deal_dealer_fields [OF d]
  show "r_rules r1 = r_rules r" "r_bet r1 = r_bet r" "r_strat r1 = r_strat r"
    using fa fb fc fd by simp_all
  show "doubled (r_player r1) = False" "surrendered (r_player r1) = False"
    using fa fb fc fd by (simp_all add: empty_hand_def)
  show "length (cards (r_player r1)) = 2" "length (cards (r_dealer r1)) = 2"
    using fa fb fc fd by (simp_all add: empty_hand_def)
qed

lemma return_settle_plain:
  "settle_payout (r_rules r) (r_bet r) (doubled (r_player r)) oc = Inr p \<Longrightarrow>
   return_settle r oc = Inr (\<lparr> outcome = oc, player_total = hard_total (r_player r),
     dealer_total = hard_total (r_dealer r), payout_cents = p \<rparr>, r)"
  by (simp add: return_settle_def settle_def)

text \<open>C3. Let the initial deal have drawn its four cards. With peek enabled and a dealer
  blackjack, \<^verbatim>\<open>play\<close> returns Push when the player has a blackjack too and DealerBJ
  otherwise. Without that (no dealer blackjack, or no peek) a player blackjack returns
  PlayerBJ, provided the payout arithmetic is defined. In each case the round returned is
  the round as dealt, whatever the strategy: the strategy object is as it was before
  \<^verbatim>\<open>play\<close>, so \<^verbatim>\<open>decide\<close> was not called.\<close>

theorem blackjack_resolves_before_player_acts:
  assumes "initial_deal shuf r = Inr r1"
  shows "(peek_for_blackjack (r_rules r) \<and> is_blackjack (r_dealer r1) \<and> is_blackjack (r_player r1) \<longrightarrow>
            play shuf strat r = Inr (\<lparr> outcome = Push, player_total = 21, dealer_total = 21,
              payout_cents = r_bet r \<rparr>, r1))
    \<and> (peek_for_blackjack (r_rules r) \<and> is_blackjack (r_dealer r1) \<and> \<not> is_blackjack (r_player r1) \<longrightarrow>
            play shuf strat r = Inr (\<lparr> outcome = DealerBJ, player_total = hard_total (r_player r1),
              dealer_total = 21, payout_cents = 0 \<rparr>, r1))
    \<and> (\<not> (peek_for_blackjack (r_rules r) \<and> is_blackjack (r_dealer r1)) \<and> is_blackjack (r_player r1)
         \<and> payout_defined (r_rules r) (r_bet r) False PlayerBJ \<longrightarrow>
            play shuf strat r = Inr (\<lparr> outcome = PlayerBJ, player_total = 21,
              dealer_total = hard_total (r_dealer r1),
              payout_cents = r_bet r + cdiv (r_bet r * blackjack_pays_num (r_rules r))
                                          (blackjack_pays_den (r_rules r)) \<rparr>, r1))
    \<and> r_strat r1 = r_strat r"
  using assms initial_deal_fields [OF assms]
  by (simp add: play_def return_settle_plain is_blackjack_def ck64_def div64_def)

text \<open>C3, instances, with a strategy that counts its calls: both hands Ace and King (Push);
  dealer Ace and King against 5 and 10 (DealerBJ); player Ace and King against 5 and 10
  (PlayerBJ, 250 on 100); both Ace and King without peek (PlayerBJ). The count stays 0.\<close>

theorem blackjack_resolves_before_player_acts_witness:
  "play (stack_shuffle []) (counting stand_always)
      (stacked_round [12, 25, 11, 24] one_deck_rules ((), 0) 100)
     = Inr (\<lparr> outcome = Push, player_total = 21, dealer_total = 21, payout_cents = 100 \<rparr>,
            dealt (stacked_round [12, 25, 11, 24] one_deck_rules ((), 0) 100)
              [Card Ace Clubs, Card King Clubs] [Card Ace Diamonds, Card King Diamonds])
   \<and> play (stack_shuffle []) (counting stand_always)
      (stacked_round [3, 12, 21, 11] one_deck_rules ((), 0) 100)
     = Inr (\<lparr> outcome = DealerBJ, player_total = 15, dealer_total = 21, payout_cents = 0 \<rparr>,
            dealt (stacked_round [3, 12, 21, 11] one_deck_rules ((), 0) 100)
              [Card Five Clubs, Card Ten Diamonds] [Card Ace Clubs, Card King Clubs])
   \<and> play (stack_shuffle []) (counting stand_always)
      (stacked_round [12, 3, 11, 21] one_deck_rules ((), 0) 100)
     = Inr (\<lparr> outcome = PlayerBJ, player_total = 21, dealer_total = 15, payout_cents = 250 \<rparr>,
            dealt (stacked_round [12, 3, 11, 21] one_deck_rules ((), 0) 100)
              [Card Ace Clubs, Card King Clubs] [Card Five Clubs, Card Ten Diamonds])
   \<and> play (stack_shuffle []) (counting stand_always)
      (stacked_round [12, 25, 11, 24] (one_deck_rules\<lparr> peek_for_blackjack := False \<rparr>) ((), 0) 100)
     = Inr (\<lparr> outcome = PlayerBJ, player_total = 21, dealer_total = 21, payout_cents = 250 \<rparr>,
            dealt (stacked_round [12, 25, 11, 24]
                     (one_deck_rules\<lparr> peek_for_blackjack := False \<rparr>) ((), 0) 100)
              [Card Ace Clubs, Card King Clubs] [Card Ace Diamonds, Card King Diamonds])
   \<and> snd (r_strat (dealt (stacked_round [12, 25, 11, 24] one_deck_rules ((), 0 :: nat) 100)
              [Card Ace Clubs, Card King Clubs] [Card Ace Diamonds, Card King Diamonds])) = 0"
proof -
  let ?shuf = "stack_shuffle [] :: unit shuffler"
  let ?s0 = "((), 0 :: nat)"
  let ?strat = "counting stand_always :: (unit \<times> nat) Strategy"
  let ?AK = "[Card Ace Clubs, Card King Clubs]"
  let ?AKd = "[Card Ace Diamonds, Card King Diamonds]"
  let ?low = "[Card Five Clubs, Card Ten Diamonds]"
  let ?r1 = "stacked_round [12, 25, 11, 24] one_deck_rules ?s0 100"
  let ?r2 = "stacked_round [3, 12, 21, 11] one_deck_rules ?s0 100"
  let ?r3 = "stacked_round [12, 3, 11, 21] one_deck_rules ?s0 100"
  let ?r4 = "stacked_round [12, 25, 11, 24] (one_deck_rules\<lparr> peek_for_blackjack := False \<rparr>) ?s0 100"
  have d1: "initial_deal ?shuf ?r1 = Inr (dealt ?r1 ?AK ?AKd)" by code_simp
  have d2: "initial_deal ?shuf ?r2 = Inr (dealt ?r2 ?low ?AK)" by code_simp
  have d3: "initial_deal ?shuf ?r3 = Inr (dealt ?r3 ?AK ?low)" by code_simp
  have d4: "initial_deal ?shuf ?r4 = Inr (dealt ?r4 ?AK ?AKd)" by code_simp
  have bj: "is_blackjack (hand_of ?AK)" "is_blackjack (hand_of ?AKd)"
    "\<not> is_blackjack (hand_of ?low)" "hard_total (hand_of ?low) = 15"
    "hard_total (hand_of ?AKd) = 21"
    by code_simp+
  have rules: "peek_for_blackjack one_deck_rules" "blackjack_pays_num one_deck_rules = 3"
    "blackjack_pays_den one_deck_rules = 2"
    by (simp_all add: one_deck_rules_def default_rules_def)
  show ?thesis
    using blackjack_resolves_before_player_acts [OF d1, of ?strat]
      blackjack_resolves_before_player_acts [OF d2, of ?strat]
      blackjack_resolves_before_player_acts [OF d3, of ?strat]
      blackjack_resolves_before_player_acts [OF d4, of ?strat]
    by (simp add: dealt_def stacked_round_def new_round_def bj rules in_int64_def cdiv_def)
qed

section \<open>The player's turn\<close>

lemma player_turn_unfold:
  "player_turn shuf strat r cd =
     (if takes_surrender strat r cd
      then Inr (Some PlayerSurrender,
                (after_offer strat r cd)
                  \<lparr> r_player := (r_player (after_offer strat r cd))\<lparr> surrendered := True \<rparr> \<rparr>)
      else if decision strat r cd = Double \<and> cd then
        (case deal_player shuf
                ((decided strat r cd)
                   \<lparr> r_player := (r_player (decided strat r cd))\<lparr> doubled := True \<rparr> \<rparr>) of
           Inl e \<Rightarrow> Inl e
         | Inr r2 \<Rightarrow> Inr (None, r2))
      else if decision strat r cd = Hit then
        (case deal_player shuf (decided strat r cd) of
           Inl e \<Rightarrow> Inl e
         | Inr r2 \<Rightarrow>
             if is_bust (r_player r2) then Inr (Some PlayerBust, r2)
             else player_turn shuf strat r2 False)
      else Inr (None, decided strat r cd))"
  by (subst player_turn.simps)
    (auto simp: Let_def takes_surrender_def after_offer_def decision_def decided_def split_beta)

lemma player_turn_induct [case_names step]:
  assumes "\<And>r cd.
    (\<And>r2. \<not> takes_surrender strat r cd \<Longrightarrow> \<not> (decision strat r cd = Double \<and> cd) \<Longrightarrow>
       decision strat r cd = Hit \<Longrightarrow> deal_player shuf (decided strat r cd) = Inr r2 \<Longrightarrow>
       \<not> is_bust (r_player r2) \<Longrightarrow> P r2 False) \<Longrightarrow> P r cd"
  shows "P r cd"
proof -
  have "shuf' = shuf \<and> strat' = strat \<longrightarrow> P r cd" for shuf' strat'
  proof (induction shuf' strat' r cd rule: player_turn.induct)
    case (1 shuf' strat' r cd)
    show ?case
    proof
      assume eq: "shuf' = shuf \<and> strat' = strat"
      show "P r cd"
      proof (rule assms)
        fix r2
        assume a: "\<not> takes_surrender strat r cd" "\<not> (decision strat r cd = Double \<and> cd)"
          "decision strat r cd = Hit" "deal_player shuf (decided strat r cd) = Inr r2"
          "\<not> is_bust (r_player r2)"
        have "shuf' = shuf \<and> strat' = strat \<longrightarrow> P r2 False"
        proof (rule 1 [OF refl refl _ _ _ _ _ _])
          show "\<not> ((surrender (r_rules r) \<and> length (cards (r_player r)) = 2) \<and>
             fst (if surrender (r_rules r) \<and> length (cards (r_player r)) = 2
                  then decide strat' r cd else (Stand, r)) = Surrender)"
            using a(1) eq by (auto simp: takes_surrender_def)
          show "(Hit, decided strat r cd) =
            decide strat' (snd (if surrender (r_rules r) \<and> length (cards (r_player r)) = 2
                  then decide strat' r cd else (Stand, r))) cd"
            using a(3) eq
            by (auto simp: decision_def decided_def after_offer_def prod_eq_iff split: if_splits)
          show "\<not> (Hit = Double \<and> cd)" by simp
          show "Hit = Hit" ..
          show "deal_player shuf' (decided strat r cd) = Inr r2" using a(4) eq by simp
          show "\<not> is_bust (r_player r2)" by (rule a(5))
        qed
        with eq show "P r2 False" by simp
      qed
    qed
  qed
  then show ?thesis by simp
qed


lemma decide_fields:
  "r_player (snd (decide strat r cd)) = r_player r"
  "r_dealer (snd (decide strat r cd)) = r_dealer r"
  "r_rules (snd (decide strat r cd)) = r_rules r"
  "r_bet (snd (decide strat r cd)) = r_bet r"
  "r_shoe (snd (decide strat r cd)) = r_shoe r"
  by (simp_all add: decide_def split_beta)

lemma after_offer_fields:
  "r_player (after_offer strat r cd) = r_player r"
  "r_dealer (after_offer strat r cd) = r_dealer r"
  "r_rules (after_offer strat r cd) = r_rules r"
  "r_bet (after_offer strat r cd) = r_bet r"
  "r_shoe (after_offer strat r cd) = r_shoe r"
  by (simp_all add: after_offer_def decide_fields)

lemma decided_fields:
  "r_player (decided strat r cd) = r_player r"
  "r_dealer (decided strat r cd) = r_dealer r"
  "r_rules (decided strat r cd) = r_rules r"
  "r_bet (decided strat r cd) = r_bet r"
  "r_shoe (decided strat r cd) = r_shoe r"
  by (simp_all add: decided_def decide_fields after_offer_fields)

text \<open>What the recording strategy has noted after the offer and after the decision.\<close>

lemma decide_recording:
  "snd (r_strat (snd (decide (recording strat) r cd))) = snd (r_strat r) @ [situation r cd]"
  by (simp add: decide_def recording_def split_beta)

lemma situation_after_offer: "situation (after_offer strat r cd) b = situation r b"
  by (simp add: situation_def after_offer_fields)

lemma after_offer_recording:
  "\<exists>new. snd (r_strat (after_offer (recording strat) r cd)) = snd (r_strat r) @ new
     \<and> set new \<subseteq> {situation r cd}"
  by (auto simp: after_offer_def decide_recording)

lemma decided_recording:
  "\<exists>new. snd (r_strat (decided (recording strat) r cd)) = snd (r_strat r) @ new
     \<and> set new \<subseteq> {situation r cd}"
proof -
  obtain new where "snd (r_strat (after_offer (recording strat) r cd)) = snd (r_strat r) @ new"
    "set new \<subseteq> {situation r cd}"
    using after_offer_recording by blast
  then have "snd (r_strat (decided (recording strat) r cd)) = snd (r_strat r) @ (new @ [situation r cd])
      \<and> set (new @ [situation r cd]) \<subseteq> {situation r cd}"
    by (simp add: decided_def decide_recording situation_after_offer)
  then show ?thesis by blast
qed

lemma first_action_situation: "first_action r cd (situation r cd)"
  by (simp add: first_action_def situation_def)

lemma player_turn_recorded:
  "player_turn shuf (recording strat) r cd = Inr (oc, r') \<Longrightarrow>
   \<exists>new. snd (r_strat r') = snd (r_strat r) @ new \<and> (\<forall>sit \<in> set new. first_action r cd sit)"
proof (induction r cd arbitrary: oc r' rule: player_turn_induct [where strat = "recording strat" and shuf = shuf])
  case (step r cd)
  let ?strat = "recording strat"
  obtain n0 where n0: "snd (r_strat (after_offer ?strat r cd)) = snd (r_strat r) @ n0"
    "set n0 \<subseteq> {situation r cd}"
    using after_offer_recording by blast
  obtain n1 where n1: "snd (r_strat (decided ?strat r cd)) = snd (r_strat r) @ n1"
    "set n1 \<subseteq> {situation r cd}"
    using decided_recording by blast
  have ok0: "\<forall>sit \<in> set n0. first_action r cd sit" and ok1: "\<forall>sit \<in> set n1. first_action r cd sit"
    using n0(2) n1(2) first_action_situation [of r cd] by auto
  consider (sur) "takes_surrender ?strat r cd"
    | (dbl) "\<not> takes_surrender ?strat r cd" "decision ?strat r cd = Double \<and> cd"
    | (hit) "\<not> takes_surrender ?strat r cd" "\<not> (decision ?strat r cd = Double \<and> cd)" "decision ?strat r cd = Hit"
    | (std) "\<not> takes_surrender ?strat r cd" "\<not> (decision ?strat r cd = Double \<and> cd)" "decision ?strat r cd \<noteq> Hit"
    by blast
  then show ?case
  proof cases
    case sur
    with step.prems have "r_strat r' = r_strat (after_offer ?strat r cd)"
      by (subst (asm) player_turn_unfold) auto
    with n0(1) ok0 show ?thesis by auto
  next
    case dbl
    with step.prems obtain r2 where
      "deal_player shuf ((decided ?strat r cd)
         \<lparr> r_player := (r_player (decided ?strat r cd))\<lparr> doubled := True \<rparr> \<rparr>) = Inr r2" "r' = r2"
      by (subst (asm) player_turn_unfold) (auto split: sum.splits)
    then have "r_strat r' = r_strat (decided ?strat r cd)"
      using deal_player_fields(3) by fastforce
    with n1(1) ok1 show ?thesis by auto
  next
    case hit
    with step.prems obtain r2 where r2: "deal_player shuf (decided ?strat r cd) = Inr r2"
      by (subst (asm) player_turn_unfold) (auto split: sum.splits)
    note f = deal_player_fields [OF r2]
    show ?thesis
    proof (cases "is_bust (r_player r2)")
      case True
      with hit r2 step.prems have "r' = r2"
        by (subst (asm) player_turn_unfold) auto
      with f(3) n1(1) ok1 show ?thesis by auto
    next
      case False
      with hit r2 step.prems have "player_turn shuf ?strat r2 False = Inr (oc, r')"
        by (subst (asm) player_turn_unfold) auto
      from step.IH [OF hit r2 False this] obtain new where
        new: "snd (r_strat r') = snd (r_strat r2) @ new" "\<forall>sit \<in> set new. first_action r2 False sit"
        by blast
      have "first_action r cd sit" if "sit \<in> set new" for sit
        using new(2) that f(7) by (auto simp: first_action_def decided_fields)
      with new(1) f(3) n1(1) ok1 have "snd (r_strat r') = snd (r_strat r) @ (n1 @ new)
          \<and> (\<forall>sit \<in> set (n1 @ new). first_action r cd sit)"
        by auto
      then show ?thesis by blast
    qed
  next
    case std
    with step.prems have "r' = decided ?strat r cd"
      by (subst (asm) player_turn_unfold) auto
    with n1(1) ok1 show ?thesis by auto
  qed
qed

lemma dealer_turn_unfold:
  "dealer_turn shuf r =
     (if hard_total (r_dealer r) < 17
         \<or> hard_total (r_dealer r) = 17 \<and> dealer_hits_soft17 (r_rules r) \<and> is_soft (r_dealer r)
      then (case deal_dealer shuf r of Inl e \<Rightarrow> Inl e | Inr r1 \<Rightarrow> dealer_turn shuf r1)
      else Inr r)"
  by (subst dealer_turn.simps) (simp add: Let_def)

lemma dealer_turn_fields:
  "dealer_turn shuf r = Inr r' \<Longrightarrow>
   r_player r' = r_player r \<and> r_strat r' = r_strat r \<and> r_rules r' = r_rules r
   \<and> r_bet r' = r_bet r \<and> 17 \<le> hard_total (r_dealer r')"
proof (induction shuf r rule: dealer_turn.induct)
  case (1 shuf r)
  show ?case
  proof (cases "hard_total (r_dealer r) < 17
         \<or> hard_total (r_dealer r) = 17 \<and> dealer_hits_soft17 (r_rules r) \<and> is_soft (r_dealer r)")
    case True
    with "1.prems" obtain r1 where r1: "deal_dealer shuf r = Inr r1" "dealer_turn shuf r1 = Inr r'"
      by (subst (asm) dealer_turn_unfold) (auto split: sum.splits)
    from True have "hard_total (r_dealer r) < 17
        \<or> \<not> hard_total (r_dealer r) < 17 \<and> hard_total (r_dealer r) = 17
           \<and> dealer_hits_soft17 (r_rules r) \<and> is_soft (r_dealer r)"
      by auto
    then have "r_player r' = r_player r1 \<and> r_strat r' = r_strat r1 \<and> r_rules r' = r_rules r1
        \<and> r_bet r' = r_bet r1 \<and> 17 \<le> hard_total (r_dealer r')"
      using "1.IH"(1) [OF refl refl _ r1] "1.IH"(2) [OF refl refl _ _ r1] by blast
    with deal_dealer_fields [OF r1(1)] show ?thesis by simp
  next
    case False
    with "1.prems" have "r' = r"
      by (subst (asm) dealer_turn_unfold) auto
    with False show ?thesis by auto
  qed
qed

lemma return_settle_round: "return_settle r oc = Inr (res, r') \<Longrightarrow> r' = r \<and> outcome res = oc"
  by (auto simp: return_settle_def settle_def split: sum.splits)

text \<open>The stages of \<^verbatim>\<open>play\<close> when it returns.\<close>

lemma play_stages:
  assumes "play shuf strat r = Inr (res, r')"
  obtains (blackjack) r1 where "initial_deal shuf r = Inr r1" "r' = r1"
      "peek_for_blackjack (r_rules r1) \<and> is_blackjack (r_dealer r1) \<or> is_blackjack (r_player r1)"
  | (early) r1 oc where "initial_deal shuf r = Inr r1"
      "player_turn shuf strat r1 (double_allowed (r_rules r1)) = Inr (Some oc, r')"
      "return_settle r' oc = Inr (res, r')"
  | (settled) r1 r2 where "initial_deal shuf r = Inr r1"
      "player_turn shuf strat r1 (double_allowed (r_rules r1)) = Inr (None, r2)"
      "dealer_turn shuf r2 = Inr r'"
      "return_settle r'
         (if is_bust (r_dealer r') then DealerBust
          else if hard_total (r_player r') > hard_total (r_dealer r') then PlayerWin
          else if hard_total (r_player r') < hard_total (r_dealer r') then DealerWin
          else Push) = Inr (res, r')"
proof -
  from assms obtain r1 where r1: "initial_deal shuf r = Inr r1"
    by (auto simp: play_def split: sum.splits)
  show thesis
  proof (cases "peek_for_blackjack (r_rules r1) \<and> is_blackjack (r_dealer r1)
      \<or> is_blackjack (r_player r1)")
    case True
    with assms r1 have "r' = r1"
      by (auto simp: play_def dest: return_settle_round split: if_splits)
    then show thesis using blackjack [OF r1 _ True] by simp
  next
    case False
    then have nb: "\<not> (peek_for_blackjack (r_rules r1) \<and> is_blackjack (r_dealer r1))"
      "\<not> is_blackjack (r_player r1)"
      by auto
    with assms r1 obtain o2 r2 where
      pt: "player_turn shuf strat r1 (double_allowed (r_rules r1)) = Inr (o2, r2)"
      by (auto simp: play_def split: sum.splits)
    show thesis
    proof (cases o2)
      case (Some oc)
      with assms r1 nb pt have rs: "return_settle r2 oc = Inr (res, r')"
        by (simp add: play_def)
      then have "r' = r2" by (simp add: return_settle_round)
      with rs pt Some r1 show thesis by (auto intro: early)
    next
      case None
      with assms r1 nb pt obtain r3 where dt: "dealer_turn shuf r2 = Inr r3"
        by (auto simp: play_def split: sum.splits)
      with assms r1 nb pt None have rs: "return_settle r3
         (if is_bust (r_dealer r3) then DealerBust
          else if hard_total (r_player r3) > hard_total (r_dealer r3) then PlayerWin
          else if hard_total (r_player r3) < hard_total (r_dealer r3) then DealerWin
          else Push) = Inr (res, r')"
        by (auto simp: play_def Let_def split: if_splits)
      then have "r' = r3" by (simp add: return_settle_round)
      with rs dt pt None r1 show thesis by (auto intro: settled)
    qed
  qed
qed

text \<open>C6. Take any strategy, wrapped so that it records the situations it is asked about. In
  a round that \<^verbatim>\<open>play\<close> completes, every situation put to the strategy offers doubling
  exactly when \<^verbatim>\<open>double_allowed\<close> is set and the player still holds the two cards of the
  deal: never after a Hit, never when doubling is disabled. In any iteration of the player's
  loop in which the surrender offer is not taken, a Double decision given while doubling is
  not legal ends the turn as a Stand does: the loop is left with the player's hand and the
  shoe as they were.\<close>

theorem double_only_as_first_action:
  "(play shuf (recording strat) r = Inr (res, r') \<and> snd (r_strat r) = [] \<longrightarrow>
      (\<forall>sit \<in> set (snd (r_strat r')).
         can_double sit = (double_allowed (r_rules r) \<and> length (cards (player sit)) = 2)))
   \<and> (\<not> takes_surrender strat' t cd \<and> decision strat' t cd = Double \<and> \<not> cd \<longrightarrow>
        player_turn shuf' strat' t cd = Inr (None, decided strat' t cd)
        \<and> r_player (decided strat' t cd) = r_player t
        \<and> r_shoe (decided strat' t cd) = r_shoe t)
   \<and> (\<not> takes_surrender strat' t cd \<and> decision strat' t cd = Stand \<longrightarrow>
        player_turn shuf' strat' t cd = Inr (None, decided strat' t cd))"
proof (intro conjI impI ballI)
  fix sit
  assume a: "play shuf (recording strat) r = Inr (res, r') \<and> snd (r_strat r) = []"
    and sit: "sit \<in> set (snd (r_strat r'))"
  then have p: "play shuf (recording strat) r = Inr (res, r')" and e: "snd (r_strat r) = []"
    by simp_all
  from p show "can_double sit = (double_allowed (r_rules r) \<and> length (cards (player sit)) = 2)"
  proof (cases rule: play_stages)
    case (blackjack r1)
    with e sit initial_deal_fields(3) [OF blackjack(1)] show ?thesis by simp
  next
    case (early r1 oc)
    note f = initial_deal_fields [OF early(1)]
    from player_turn_recorded [OF early(2)] e f(3) sit
    have "first_action r1 (double_allowed (r_rules r1)) sit" by auto
    with f show ?thesis by (auto simp: first_action_def)
  next
    case (settled r1 r2)
    note f = initial_deal_fields [OF settled(1)]
    from dealer_turn_fields [OF settled(3)] have "r_strat r' = r_strat r2" by simp
    with player_turn_recorded [OF settled(2)] e f(3) sit
    have "first_action r1 (double_allowed (r_rules r1)) sit" by auto
    with f show ?thesis by (auto simp: first_action_def)
  qed
next
  assume "\<not> takes_surrender strat' t cd \<and> decision strat' t cd = Double \<and> \<not> cd"
  then show "player_turn shuf' strat' t cd = Inr (None, decided strat' t cd)"
    by (subst player_turn_unfold) auto
next
  show "r_player (decided strat' t cd) = r_player t" "r_shoe (decided strat' t cd) = r_shoe t"
    by (simp_all add: decided_fields)
next
  assume "\<not> takes_surrender strat' t cd \<and> decision strat' t cd = Stand"
  then show "player_turn shuf' strat' t cd = Inr (None, decided strat' t cd)"
    by (subst player_turn_unfold) simp
qed

text \<open>C6, instances: the default strategy, recorded, hits twice and is offered doubling on
  the first decision only; after a Hit, a strategy that always doubles ends the turn without
  a card; so does one that stands.\<close>

theorem double_only_as_first_action_witness:
  "play (stack_shuffle []) (recording AlwaysHitUnder17) (hit_twice ((), []))
     = Inr (\<lparr> outcome = PlayerWin, player_total = 18, dealer_total = 17, payout_cents = 200 \<rparr>,
            (played (hit_twice ((), []))  6
               (hand_of [Card Two Clubs, Card Three Clubs, Card Four Clubs, Card Nine Clubs])
               (hand_of [Card Ten Clubs, Card Seven Clubs]))\<lparr> r_strat := ((), hit_twice_log) \<rparr>)
   \<and> list_all (\<lambda>sit. can_double sit
                  = (double_allowed one_deck_rules \<and> length (cards (player sit)) = 2))
        hit_twice_log
   \<and> map can_double hit_twice_log = [True, False, False]
   \<and> player_turn (stack_shuffle []) double_always
        (played (hit_twice ()) 5 (hand_of [Card Two Clubs, Card Three Clubs, Card Four Clubs])
           (hand_of [Card Ten Clubs, Card Seven Clubs])) False
     = Inr (None, played (hit_twice ()) 5
              (hand_of [Card Two Clubs, Card Three Clubs, Card Four Clubs])
              (hand_of [Card Ten Clubs, Card Seven Clubs]))
   \<and> player_turn (stack_shuffle []) stand_always
        (played (hit_twice ()) 4 (hand_of [Card Two Clubs, Card Three Clubs])
           (hand_of [Card Ten Clubs, Card Seven Clubs])) True
     = Inr (None, played (hit_twice ()) 4 (hand_of [Card Two Clubs, Card Three Clubs])
              (hand_of [Card Ten Clubs, Card Seven Clubs]))"
proof -
  let ?shuf = "stack_shuffle [] :: unit shuffler"
  let ?r = "hit_twice ((), []) :: (unit \<times> Situation list, unit) Round"
  let ?r' = "(played ?r 6
               (hand_of [Card Two Clubs, Card Three Clubs, Card Four Clubs, Card Nine Clubs])
               (hand_of [Card Ten Clubs, Card Seven Clubs]))\<lparr> r_strat := ((), hit_twice_log) \<rparr>"
  let ?res = "\<lparr> outcome = PlayerWin, player_total = 18, dealer_total = 17, payout_cents = 200 \<rparr>"
  let ?t = "played (hit_twice ()) 5 (hand_of [Card Two Clubs, Card Three Clubs, Card Four Clubs])
           (hand_of [Card Ten Clubs, Card Seven Clubs]) :: (unit, unit) Round"
  let ?u = "played (hit_twice ()) 4 (hand_of [Card Two Clubs, Card Three Clubs])
           (hand_of [Card Ten Clubs, Card Seven Clubs]) :: (unit, unit) Round"
  have p: "play ?shuf (recording AlwaysHitUnder17) ?r = Inr (?res, ?r')"
    by code_simp
  have e: "snd (r_strat ?r) = []" "r_rules ?r = one_deck_rules"
    by (simp_all add: hit_twice_def stacked_round_def new_round_def)
  have l: "snd (r_strat ?r') = hit_twice_log"
    by (simp add: played_def)
  have m: "map can_double hit_twice_log = [True, False, False]"
    by (simp add: hit_twice_log_def asked_with_def)
  have t: "\<not> takes_surrender double_always ?t False" "decision double_always ?t False = Double"
    "decided double_always ?t False = ?t"
    by (simp_all add: takes_surrender_def decision_def decided_def after_offer_def decide_def
        double_always_def played_def hit_twice_def stacked_round_def new_round_def
        one_deck_rules_def default_rules_def)
  have u: "\<not> takes_surrender stand_always ?u True" "decision stand_always ?u True = Stand"
    "decided stand_always ?u True = ?u"
    by (simp_all add: takes_surrender_def decision_def decided_def after_offer_def decide_def
        stand_always_def played_def hit_twice_def stacked_round_def new_round_def
        one_deck_rules_def default_rules_def)
  from double_only_as_first_action
    [of ?shuf AlwaysHitUnder17 ?r ?res ?r' double_always ?t False ?shuf]
    double_only_as_first_action
    [of ?shuf AlwaysHitUnder17 ?r ?res ?r' stand_always ?u True ?shuf]
  show ?thesis
    using p e l m t u by (simp add: list_all_iff)
qed

section \<open>The double-down\<close>

lemma player_turn_doubled:
  "player_turn shuf strat r cd = Inr (oc, r') \<Longrightarrow> \<not> doubled (r_player r) \<Longrightarrow>
   doubled (r_player r') \<Longrightarrow>
   oc = None \<and> cd \<and> length (cards (r_player r')) = Suc (length (cards (r_player r)))"
proof (induction r cd arbitrary: oc r' rule: player_turn_induct [where strat = strat and shuf = shuf])
  case (step r cd)
  consider (sur) "takes_surrender strat r cd"
    | (dbl) "\<not> takes_surrender strat r cd" "decision strat r cd = Double \<and> cd"
    | (hit) "\<not> takes_surrender strat r cd" "\<not> (decision strat r cd = Double \<and> cd)" "decision strat r cd = Hit"
    | (std) "\<not> takes_surrender strat r cd" "\<not> (decision strat r cd = Double \<and> cd)" "decision strat r cd \<noteq> Hit"
    by blast
  then show ?case
  proof cases
    case sur
    with step.prems(1) have "doubled (r_player r') = doubled (r_player r)"
      by (subst (asm) player_turn_unfold) (auto simp: after_offer_fields)
    with step.prems show ?thesis by simp
  next
    case dbl
    with step.prems(1) have d: "deal_player shuf ((decided strat r cd)
         \<lparr> r_player := (r_player (decided strat r cd))\<lparr> doubled := True \<rparr> \<rparr>) = Inr r'"
      and "oc = None"
      by (subst (asm) player_turn_unfold; auto split: sum.splits)+
    with dbl deal_player_fields(7) [OF d] show ?thesis
      by (simp add: decided_fields)
  next
    case hit
    with step.prems(1) obtain r2 where r2: "deal_player shuf (decided strat r cd) = Inr r2"
      by (subst (asm) player_turn_unfold) (auto split: sum.splits)
    note f = deal_player_fields [OF r2]
    show ?thesis
    proof (cases "is_bust (r_player r2)")
      case True
      with hit r2 step.prems(1) have "r' = r2"
        by (subst (asm) player_turn_unfold) auto
      with f(5) step.prems show ?thesis by (simp add: decided_fields)
    next
      case False
      with hit r2 step.prems(1) have "player_turn shuf strat r2 False = Inr (oc, r')"
        by (subst (asm) player_turn_unfold) auto
      from step.IH [OF hit r2 False this] f(5) step.prems show ?thesis
        by (simp add: decided_fields)
    qed
  next
    case std
    with step.prems(1) have "r' = decided strat r cd"
      by (subst (asm) player_turn_unfold) auto
    with step.prems show ?thesis by (simp add: decided_fields)
  qed
qed

lemma deal_player_same:
  "deal_player shuf r = Inr r2 \<Longrightarrow>
   r_rules r2 = r_rules r \<and> r_bet r2 = r_bet r \<and> r_dealer r2 = r_dealer r"
  by (simp add: deal_player_fields)

lemma player_turn_fields:
  "player_turn shuf strat r cd = Inr (oc, r') \<Longrightarrow>
   r_rules r' = r_rules r \<and> r_bet r' = r_bet r \<and> r_dealer r' = r_dealer r"
proof (induction r cd arbitrary: oc r' rule: player_turn_induct [where strat = strat and shuf = shuf])
  case (step r cd)
  show ?case
  proof (cases "\<not> takes_surrender strat r cd \<and> \<not> (decision strat r cd = Double \<and> cd)
      \<and> decision strat r cd = Hit")
    case True
    with step.prems obtain r2 where r2: "deal_player shuf (decided strat r cd) = Inr r2"
      by (subst (asm) player_turn_unfold) (auto split: sum.splits)
    show ?thesis
    proof (cases "is_bust (r_player r2)")
      case bust: True
      with True r2 step.prems have "r' = r2"
        by (subst (asm) player_turn_unfold) auto
      with deal_player_same [OF r2] show ?thesis by (simp add: decided_fields)
    next
      case False
      with True r2 step.prems have "player_turn shuf strat r2 False = Inr (oc, r')"
        by (subst (asm) player_turn_unfold) auto
      with step.IH [OF _ _ _ r2 False] True deal_player_same [OF r2] show ?thesis
        by (simp add: decided_fields)
    qed
  next
    case False
    with step.prems show ?thesis
      by (subst (asm) player_turn_unfold)
        (auto simp: after_offer_fields decided_fields split: sum.splits if_splits
          dest!: deal_player_same)
  qed
qed

lemma return_settle_payout:
  "return_settle r oc = Inr (res, r') \<Longrightarrow>
   settle_payout (r_rules r) (r_bet r) (doubled (r_player r)) oc = Inr (payout_cents res)"
  by (auto simp: return_settle_def settle_def split: sum.splits)

text \<open>C10. In every round that \<^verbatim>\<open>play\<close> completes with the player's hand doubled, the
  player holds three cards (one was drawn after the Double, with no bust check), the dealer
  has played to 17 or more, and the outcome comes from the comparison of the hard totals:
  DealerBust when the dealer busts, otherwise PlayerWin, DealerWin or Push; never
  PlayerBust. When the doubled hand is above 21 the outcome is PlayerWin, or DealerBust if
  the dealer busts too, and the payout is four times the bet.\<close>

theorem doubled_bust_settles_by_totals:
  assumes "play shuf strat r = Inr (res, r')" and "doubled (r_player r')"
  shows "length (cards (r_player r')) = 3
    \<and> 17 \<le> hard_total (r_dealer r')
    \<and> outcome res =
        (if is_bust (r_dealer r') then DealerBust
         else if hard_total (r_player r') > hard_total (r_dealer r') then PlayerWin
         else if hard_total (r_player r') < hard_total (r_dealer r') then DealerWin
         else Push)
    \<and> outcome res \<noteq> PlayerBust
    \<and> (is_bust (r_player r') \<longrightarrow>
          (outcome res = PlayerWin \<or> outcome res = DealerBust)
          \<and> payout_cents res = 4 * r_bet r)"
  using assms(1)
proof (cases rule: play_stages)
  case (blackjack r1)
  with assms(2) initial_deal_fields(4) [OF blackjack(1)] show ?thesis by simp
next
  case (early r1 oc)
  with assms(2) initial_deal_fields(4) [OF early(1)] player_turn_doubled [OF early(2)]
  show ?thesis by simp
next
  case (settled r1 r2)
  note f = initial_deal_fields [OF settled(1)] and g = dealer_turn_fields [OF settled(3)]
  from g assms(2) have "doubled (r_player r2)" by simp
  with player_turn_doubled [OF settled(2)] f have three: "length (cards (r_player r2)) = 3"
    by simp
  let ?oc = "if is_bust (r_dealer r') then DealerBust
         else if hard_total (r_player r') > hard_total (r_dealer r') then PlayerWin
         else if hard_total (r_player r') < hard_total (r_dealer r') then DealerWin
         else Push"
  from settled(4) have oc: "outcome res = ?oc"
    using return_settle_round by blast
  have pay: "settle_payout (r_rules r') (r_bet r') True ?oc = Inr (payout_cents res)"
    using return_settle_payout [OF settled(4)] assms(2) by simp
  have "(outcome res = PlayerWin \<or> outcome res = DealerBust) \<and> payout_cents res = 4 * r_bet r"
    if bust: "is_bust (r_player r')"
  proof -
    from bust oc have w: "outcome res = PlayerWin \<or> outcome res = DealerBust"
      by (auto simp: is_bust_def)
    with oc pay have "payout_cents res = r_bet r' * 4"
      by (auto simp: ck64_def split: if_splits sum.splits)
    with w g f player_turn_fields [OF settled(2)] show ?thesis by simp
  qed
  with oc g three show ?thesis by auto
qed

text \<open>C10, instances: 9 and Jack doubled into a King is 29. Against the dealer's 10 and Queen
  the round settles as PlayerWin; against 10 and 6 drawing the Queen, as DealerBust. Both
  pay 400 on a bet of 100.\<close>

theorem doubled_bust_settles_by_totals_witness:
  "play (stack_shuffle []) double_always (stacked_round [7, 8, 9, 10, 11] one_deck_rules () 100)
     = Inr (\<lparr> outcome = PlayerWin, player_total = 29, dealer_total = 20, payout_cents = 400 \<rparr>,
            played (stacked_round [7, 8, 9, 10, 11] one_deck_rules () 100) 5 nine_jack_king
              (hand_of [Card Ten Clubs, Card Queen Clubs]))
   \<and> play (stack_shuffle []) double_always
        (stacked_round [7, 8, 9, 4, 11, 10] one_deck_rules () 100)
     = Inr (\<lparr> outcome = DealerBust, player_total = 29, dealer_total = 26, payout_cents = 400 \<rparr>,
            played (stacked_round [7, 8, 9, 4, 11, 10] one_deck_rules () 100) 6 nine_jack_king
              (hand_of [Card Ten Clubs, Card Six Clubs, Card Queen Clubs]))
   \<and> doubled nine_jack_king \<and> is_bust nine_jack_king \<and> length (cards nine_jack_king) = 3"
proof -
  let ?shuf = "stack_shuffle [] :: unit shuffler"
  let ?r = "stacked_round [7, 8, 9, 10, 11] one_deck_rules () 100 :: (unit, unit) Round"
  let ?q = "stacked_round [7, 8, 9, 4, 11, 10] one_deck_rules () 100 :: (unit, unit) Round"
  let ?r' = "played ?r 5 nine_jack_king (hand_of [Card Ten Clubs, Card Queen Clubs])"
  let ?q' = "played ?q 6 nine_jack_king (hand_of [Card Ten Clubs, Card Six Clubs, Card Queen Clubs])"
  let ?res = "\<lparr> outcome = PlayerWin, player_total = 29, dealer_total = 20, payout_cents = 400 \<rparr>"
  let ?qes = "\<lparr> outcome = DealerBust, player_total = 29, dealer_total = 26, payout_cents = 400 \<rparr>"
  have p: "play ?shuf double_always ?r = Inr (?res, ?r')"
    by code_simp
  have q: "play ?shuf double_always ?q = Inr (?qes, ?q')"
    by code_simp
  have d: "doubled (r_player ?r')" "doubled (r_player ?q')" "doubled nine_jack_king"
    by (simp_all add: played_def nine_jack_king_def)
  have b: "is_bust nine_jack_king"
    by code_simp
  from doubled_bust_settles_by_totals [OF p d(1)] doubled_bust_settles_by_totals [OF q d(2)]
  show ?thesis
    using p q d(3) b by (simp add: played_def)
qed


section \<open>Folding the rounds\<close>

lemma count_outcome_spec:
  "count_outcome (outcome res) (st\<lparr> rounds := rounds st + 1, bankroll_cents := b \<rparr>)
     = (spec_fold bet st (res, dbl))\<lparr> bankroll_cents := b \<rparr>"
  by (cases "outcome res") (simp_all add: spec_fold_def)

lemma tally_spec:
  assumes "tally bet st res dbl = Inr st'"
  shows "st' = spec_fold bet st (res, dbl)"
proof -
  let ?stake = "if dbl then bet * 2 else bet"
  from assms have "st' = count_outcome (outcome res)
      (st\<lparr> rounds := rounds st + 1,
          bankroll_cents := bankroll_cents st + (payout_cents res - ?stake) \<rparr>)"
    by (cases dbl) (auto simp: tally_def ck64_def split: if_splits)
  also have "\<dots> = (spec_fold bet st (res, dbl))
      \<lparr> bankroll_cents := bankroll_cents st + (payout_cents res - ?stake) \<rparr>"
    by (rule count_outcome_spec)
  also have "\<dots> = spec_fold bet st (res, dbl)"
    by (simp add: spec_fold_def Let_def mult.commute)
  finally show ?thesis .
qed

lemma tally_returns:
  assumes "\<bar>bet\<bar> * 2 < 2 ^ 63" and "\<bar>payout_cents res\<bar> + 2 * \<bar>bet\<bar> < 2 ^ 63"
    and "\<bar>bankroll_cents st\<bar> + (\<bar>payout_cents res\<bar> + 2 * \<bar>bet\<bar>) < 2 ^ 63"
  shows "\<exists>st'. tally bet st res dbl = Inr st'"
proof -
  let ?stake = "if dbl then bet * 2 else bet"
  have s: "in_int64 (bet * 2)"
    using assms(1) by (simp add: in_int64_def abs_less_iff)
  have "\<bar>payout_cents res - ?stake\<bar> \<le> \<bar>payout_cents res\<bar> + 2 * \<bar>bet\<bar>"
    by (cases dbl) (simp_all add: abs_if)
  then have n: "in_int64 (payout_cents res - ?stake)"
    and b: "in_int64 (bankroll_cents st + (payout_cents res - ?stake))"
    using assms(2,3) by (simp_all add: in_int64_def abs_if split: if_splits)
  show ?thesis
    using s n b by (cases dbl) (simp_all add: tally_def ck64_def)
qed

lemma abs_cdiv_le:
  assumes "b \<noteq> 0"
  shows "\<bar>cdiv a b\<bar> \<le> \<bar>a\<bar>"
proof -
  from assms have b: "0 < \<bar>b\<bar>" by simp
  then have nn: "0 \<le> \<bar>a\<bar> div \<bar>b\<bar>"
    by (simp add: pos_imp_zdiv_nonneg_iff)
  have "\<bar>a\<bar> div \<bar>b\<bar> \<le> \<bar>a\<bar> div 1"
    using b by (intro zdiv_mono2) simp_all
  then have le: "\<bar>a\<bar> div \<bar>b\<bar> \<le> \<bar>a\<bar>"
    by simp
  define q where "q = \<bar>a\<bar> div \<bar>b\<bar>"
  have "cdiv a b = q \<or> cdiv a b = - q \<or> cdiv a b = 0"
    unfolding cdiv_def q_def [symmetric] by (auto simp: sgn_if)
  with nn le show ?thesis
    unfolding q_def [symmetric] by auto
qed

lemma in_int64_abs: "\<bar>x\<bar> < 2 ^ 63 \<Longrightarrow> in_int64 x"
  by (simp add: in_int64_def abs_less_iff)

lemma payout_in_bound:
  assumes "blackjack_pays_den rs \<noteq> 0" and "net_bound rs bet < 2 ^ 63"
  shows "payout_defined rs bet dbl oc"
    and "in_int64 bet"
    and "\<bar>spec_payout oc dbl bet (blackjack_pays_num rs) (blackjack_pays_den rs)\<bar>
           + 2 * \<bar>bet\<bar> \<le> net_bound rs bet"
proof -
  let ?num = "blackjack_pays_num rs" and ?den = "blackjack_pays_den rs"
  define a where "a = \<bar>bet\<bar>"
  define p where "p = \<bar>bet\<bar> * \<bar>?num\<bar>"
  define q where "q = cdiv (bet * ?num) ?den"
  have nb: "net_bound rs bet = p + 6 * a"
    by (simp add: net_bound_def algebra_simps a_def p_def)
  have pos: "0 \<le> a" "0 \<le> p"
    by (simp_all add: a_def p_def)
  have lim: "p + 6 * a < 2 ^ 63"
    using assms(2) nb by simp
  have m: "\<bar>bet * ?num\<bar> = p"
    by (simp add: abs_mult p_def)
  have q: "\<bar>q\<bar> \<le> p"
    using abs_cdiv_le [OF assms(1), of "bet * ?num"] m by (simp add: q_def)
  have h: "\<bar>cdiv bet 2\<bar> \<le> a"
    using abs_cdiv_le [of 2 bet] by (simp add: a_def)
  have b2: "\<bar>bet * 2\<bar> = 2 * a" and b4: "\<bar>bet * 4\<bar> = 4 * a"
    by (simp_all add: a_def abs_mult)
  have bq: "\<bar>bet + q\<bar> \<le> a + p"
    using q abs_triangle_ineq [of bet q] by (simp add: a_def)
  show "in_int64 bet"
    using lim pos by (intro in_int64_abs) (simp add: a_def [symmetric])
  have i2: "in_int64 (bet * 2)" and i4: "in_int64 (bet * 4)"
    using lim pos b2 b4 by (simp_all add: in_int64_abs)
  have im: "in_int64 (bet * ?num)" and iq: "in_int64 q" and ib: "in_int64 (bet + q)"
    using lim pos m q bq by (simp_all add: in_int64_abs)
  show "payout_defined rs bet dbl oc"
    using assms(1) i2 i4 im iq ib by (cases oc) (simp_all add: q_def)
  have "\<bar>spec_payout oc dbl bet ?num ?den\<bar> \<le> p + 4 * a"
    using pos bq b2 b4 h by (cases oc) (simp_all add: q_def [symmetric] a_def [symmetric])
  then show "\<bar>spec_payout oc dbl bet ?num ?den\<bar> + 2 * \<bar>bet\<bar> \<le> net_bound rs bet"
    using nb by (simp add: a_def)
qed

lemma draw_stocked:
  assumes "keeps_size shuf" and "s_cards sh \<noteq> []"
  shows "\<exists>c sh'. draw shuf sh = Inr (c, sh') \<and> s_cards sh' \<noteq> []"
proof -
  from draw_returns [OF assms] obtain c sh' where d: "draw shuf sh = Inr (c, sh')"
    by blast
  from draw_shoe [OF assms(1) d] assms(2) have "s_cards sh' \<noteq> []"
    by (metis length_0_conv)
  with d show ?thesis by blast
qed

lemma deal_player_returns:
  "keeps_size shuf \<Longrightarrow> stocked r \<Longrightarrow> \<exists>r'. deal_player shuf r = Inr r' \<and> stocked r'"
  using draw_stocked [of shuf "r_shoe r"] by (auto simp: deal_player_def stocked_def)

lemma deal_dealer_returns:
  "keeps_size shuf \<Longrightarrow> stocked r \<Longrightarrow> \<exists>r'. deal_dealer shuf r = Inr r' \<and> stocked r'"
  using draw_stocked [of shuf "r_shoe r"] by (auto simp: deal_dealer_def stocked_def)

lemma initial_deal_returns:
  assumes "keeps_size shuf" and "stocked r"
  shows "\<exists>r1. initial_deal shuf r = Inr r1 \<and> stocked r1"
proof -
  from assms(2) have "stocked (r\<lparr> r_player := empty_hand, r_dealer := empty_hand \<rparr>)"
    by (simp add: stocked_def)
  from deal_player_returns [OF assms(1) this] obtain ra where
    a: "deal_player shuf (r\<lparr> r_player := empty_hand, r_dealer := empty_hand \<rparr>) = Inr ra" "stocked ra"
    by blast
  from deal_dealer_returns [OF assms(1) a(2)] obtain rb where
    b: "deal_dealer shuf ra = Inr rb" "stocked rb" by blast
  from deal_player_returns [OF assms(1) b(2)] obtain rc where
    c: "deal_player shuf rb = Inr rc" "stocked rc" by blast
  from deal_dealer_returns [OF assms(1) c(2)] obtain rd where
    d: "deal_dealer shuf rc = Inr rd" "stocked rd" by blast
  from a b c d show ?thesis by (simp add: initial_deal_def)
qed

lemma stocked_same_shoe: "r_shoe r' = r_shoe r \<Longrightarrow> stocked r' = stocked r"
  by (simp add: stocked_def)

lemma player_turn_returns:
  assumes "keeps_size shuf"
  shows "stocked r \<Longrightarrow> \<exists>oc r'. player_turn shuf strat r cd = Inr (oc, r') \<and> stocked r'"
proof (induction r cd rule: player_turn_induct [where strat = strat and shuf = shuf])
  case (step r cd)
  have s0: "stocked (after_offer strat r cd)" and s1: "stocked (decided strat r cd)"
    using step.prems by (simp_all add: stocked_def after_offer_fields decided_fields)
  consider (sur) "takes_surrender strat r cd"
    | (dbl) "\<not> takes_surrender strat r cd" "decision strat r cd = Double \<and> cd"
    | (hit) "\<not> takes_surrender strat r cd" "\<not> (decision strat r cd = Double \<and> cd)" "decision strat r cd = Hit"
    | (std) "\<not> takes_surrender strat r cd" "\<not> (decision strat r cd = Double \<and> cd)" "decision strat r cd \<noteq> Hit"
    by blast
  then show ?case
  proof cases
    case sur
    with s0 show ?thesis
      by (subst player_turn_unfold) (simp add: stocked_def)
  next
    case dbl
    from s1 have "stocked ((decided strat r cd)
        \<lparr> r_player := (r_player (decided strat r cd))\<lparr> doubled := True \<rparr> \<rparr>)"
      by (simp add: stocked_def)
    from deal_player_returns [OF assms this] dbl show ?thesis
      by (subst player_turn_unfold) auto
  next
    case hit
    from deal_player_returns [OF assms s1] obtain r2 where
      r2: "deal_player shuf (decided strat r cd) = Inr r2" "stocked r2"
      by blast
    show ?thesis
    proof (cases "is_bust (r_player r2)")
      case True
      with hit r2 show ?thesis
        by (subst player_turn_unfold) auto
    next
      case False
      from step.IH [OF hit r2(1) False r2(2)] hit r2 False show ?thesis
        by (subst player_turn_unfold) auto
    qed
  next
    case std
    with s1 show ?thesis
      by (subst player_turn_unfold) auto
  qed
qed

lemma dealer_turn_returns:
  "keeps_size shuf \<Longrightarrow> stocked r \<Longrightarrow> \<exists>r'. dealer_turn shuf r = Inr r' \<and> stocked r'"
proof (induction shuf r rule: dealer_turn.induct)
  case (1 shuf r)
  show ?case
  proof (cases "hard_total (r_dealer r) < 17
         \<or> hard_total (r_dealer r) = 17 \<and> dealer_hits_soft17 (r_rules r) \<and> is_soft (r_dealer r)")
    case True
    from deal_dealer_returns [OF "1.prems"] obtain r1 where
      r1: "deal_dealer shuf r = Inr r1" "stocked r1"
      by blast
    from True have "hard_total (r_dealer r) < 17
        \<or> \<not> hard_total (r_dealer r) < 17 \<and> hard_total (r_dealer r) = 17
           \<and> dealer_hits_soft17 (r_rules r) \<and> is_soft (r_dealer r)"
      by auto
    then have "\<exists>r'. dealer_turn shuf r1 = Inr r' \<and> stocked r'"
      using "1.IH"(1) [OF refl refl _ r1(1) "1.prems"(1) r1(2)]
        "1.IH"(2) [OF refl refl _ _ r1(1) "1.prems"(1) r1(2)] by blast
    with True r1 show ?thesis
      by (subst dealer_turn_unfold) auto
  next
    case False
    with "1.prems" show ?thesis
      by (subst dealer_turn_unfold) auto
  qed
qed

lemma return_settle_returns:
  assumes "blackjack_pays_den (r_rules r) \<noteq> 0" and "net_bound (r_rules r) (r_bet r) < 2 ^ 63"
  shows "\<exists>res. return_settle r oc = Inr (res, r)
    \<and> \<bar>payout_cents res\<bar> + 2 * \<bar>r_bet r\<bar> \<le> net_bound (r_rules r) (r_bet r)"
  using payout_in_bound(1) [OF assms, of "doubled (r_player r)" oc] payout_in_bound(2) [OF assms]
    payout_in_bound(3) [OF assms, of oc "doubled (r_player r)"]
  by (simp add: return_settle_def settle_table)

lemma play_returns:
  assumes "keeps_size shuf" and "stocked r"
    and "blackjack_pays_den (r_rules r) \<noteq> 0" and "net_bound (r_rules r) (r_bet r) < 2 ^ 63"
  shows "\<exists>res r'. play shuf strat r = Inr (res, r') \<and> stocked r'
    \<and> \<bar>payout_cents res\<bar> + 2 * \<bar>r_bet r\<bar> \<le> net_bound (r_rules r) (r_bet r)"
proof -
  from initial_deal_returns [OF assms(1,2)] obtain r1 where
    r1: "initial_deal shuf r = Inr r1" "stocked r1" by blast
  note f1 = initial_deal_fields [OF r1(1)]
  have settle: "\<exists>res. return_settle q oc = Inr (res, q)
      \<and> \<bar>payout_cents res\<bar> + 2 * \<bar>r_bet r\<bar> \<le> net_bound (r_rules r) (r_bet r)"
    if "r_rules q = r_rules r" "r_bet q = r_bet r" for q :: "('b, 'a) Round" and oc
    using return_settle_returns [of q oc] assms(3,4) that by simp
  show ?thesis
  proof (cases "peek_for_blackjack (r_rules r1) \<and> is_blackjack (r_dealer r1)
      \<or> is_blackjack (r_player r1)")
    case True
    with r1 have "\<exists>oc. play shuf strat r = return_settle r1 oc"
      by (cases "peek_for_blackjack (r_rules r1) \<and> is_blackjack (r_dealer r1)";
          cases "is_blackjack (r_player r1)") (auto simp: play_def)
    then obtain oc where "play shuf strat r = return_settle r1 oc"
      by blast
    with r1(2) settle [OF f1(1,2), of oc] show ?thesis
      by auto
  next
    case False
    then have nb: "\<not> (peek_for_blackjack (r_rules r1) \<and> is_blackjack (r_dealer r1))"
      "\<not> is_blackjack (r_player r1)"
      by auto
    from player_turn_returns [OF assms(1) r1(2)] obtain o2 r2 where
      r2: "player_turn shuf strat r1 (double_allowed (r_rules r1)) = Inr (o2, r2)" "stocked r2"
      by blast
    note f2 = player_turn_fields [OF r2(1)]
    show ?thesis
    proof (cases o2)
      case (Some oc)
      from settle [of r2 oc] f1 f2 obtain res where
        "return_settle r2 oc = Inr (res, r2)"
        "\<bar>payout_cents res\<bar> + 2 * \<bar>r_bet r\<bar> \<le> net_bound (r_rules r) (r_bet r)"
        by auto
      moreover have "play shuf strat r = return_settle r2 oc"
        using r1 nb r2 Some by (auto simp: play_def)
      ultimately show ?thesis
        using r2(2) by auto
    next
      case None
      from dealer_turn_returns [OF assms(1) r2(2)] obtain r3 where
        r3: "dealer_turn shuf r2 = Inr r3" "stocked r3" by blast
      note f3 = dealer_turn_fields [OF r3(1)]
      let ?oc = "if is_bust (r_dealer r3) then DealerBust
          else if hard_total (r_player r3) > hard_total (r_dealer r3) then PlayerWin
          else if hard_total (r_player r3) < hard_total (r_dealer r3) then DealerWin
          else Push"
      from settle [of r3 ?oc] f1 f2 f3 obtain res where
        res: "return_settle r3 ?oc = Inr (res, r3)"
        "\<bar>payout_cents res\<bar> + 2 * \<bar>r_bet r\<bar> \<le> net_bound (r_rules r) (r_bet r)"
        by auto
      have "play shuf strat r = return_settle r3 ?oc"
        using r1 nb r2 None r3 by (auto simp: play_def Let_def)
      with res r3(2) show ?thesis by auto
    qed
  qed
qed

lemma spec_fold_bankroll:
  "bankroll_cents (spec_fold bet st (res, dbl))
     = bankroll_cents st + (payout_cents res - (if dbl then 2 * bet else bet))"
  by (simp add: spec_fold_def Let_def)

lemma spec_fold_rounds: "rounds (spec_fold bet st x) = rounds st + 1"
  by (simp add: spec_fold_def Let_def)

lemma foldl_spec_fold_rounds:
  "rounds (foldl (spec_fold bet) st xs) = rounds st + int (length xs)"
  by (induction xs arbitrary: st) (simp_all add: spec_fold_rounds)

lemma sim_loop_folds:
  assumes "keeps_size shuf" and "blackjack_pays_den rs \<noteq> 0"
  shows "s_cards sh \<noteq> [] \<Longrightarrow> \<bar>bankroll_cents st\<bar> + int k * net_bound rs bet < 2 ^ 63 \<Longrightarrow>
    \<exists>results sh' s'. play_rounds shuf strat rs bet k (sh, s) = Inr results
      \<and> length results = k
      \<and> sim_loop shuf strat rs bet k (st, sh, s)
          = Inr (foldl (spec_fold bet) st results, sh', s')"
proof (induction k arbitrary: st sh s)
  case 0
  show ?case by simp
next
  case (Suc k)
  let ?B = "net_bound rs bet"
  let ?r = "new_round rs sh s bet"
  have B0: "0 \<le> ?B"
    by (simp add: net_bound_def)
  then have kB: "0 \<le> int k * ?B" by simp
  from Suc.prems(2) have lim: "\<bar>bankroll_cents st\<bar> + ?B + int k * ?B < 2 ^ 63"
    by (simp add: algebra_simps)
  with kB have B: "?B < 2 ^ 63" and bB: "\<bar>bankroll_cents st\<bar> + ?B < 2 ^ 63"
    by linarith+
  have fr: "r_rules ?r = rs" "r_bet ?r = bet" "stocked ?r"
    using Suc.prems(1) by (simp_all add: new_round_def stocked_def)
  from play_returns [OF assms(1) fr(3), of strat] assms(2) B fr(1,2) obtain res r' where
    p: "play shuf strat ?r = Inr (res, r')" "stocked r'"
    and pay: "\<bar>payout_cents res\<bar> + 2 * \<bar>bet\<bar> \<le> ?B"
    by auto
  let ?dbl = "doubled (r_player r')"
  have "0 \<le> \<bar>payout_cents res\<bar>" by simp
  with pay B bB have "\<bar>bet\<bar> * 2 < 2 ^ 63" "\<bar>payout_cents res\<bar> + 2 * \<bar>bet\<bar> < 2 ^ 63"
    "\<bar>bankroll_cents st\<bar> + (\<bar>payout_cents res\<bar> + 2 * \<bar>bet\<bar>) < 2 ^ 63"
    by linarith+
  from tally_returns [OF this, of ?dbl] obtain st' where t: "tally bet st res ?dbl = Inr st'"
    by blast
  then have st': "st' = spec_fold bet st (res, ?dbl)"
    by (rule tally_spec)
  have "\<bar>payout_cents res - (if ?dbl then 2 * bet else bet)\<bar> \<le> \<bar>payout_cents res\<bar> + 2 * \<bar>bet\<bar>"
    by (simp add: abs_if)
  with pay have "\<bar>bankroll_cents st'\<bar> \<le> \<bar>bankroll_cents st\<bar> + ?B"
    unfolding st' spec_fold_bankroll by linarith
  with lim have "\<bar>bankroll_cents st'\<bar> + int k * ?B < 2 ^ 63"
    by linarith
  from Suc.IH [OF _ this, of "r_shoe r'" "r_strat r'"] p(2) obtain results sh' s' where
    "play_rounds shuf strat rs bet k (r_shoe r', r_strat r') = Inr results" "length results = k"
    "sim_loop shuf strat rs bet k (st', r_shoe r', r_strat r')
       = Inr (foldl (spec_fold bet) st' results, sh', s')"
    by (auto simp: stocked_def)
  with p(1) t st' show ?case
    by simp
qed

text \<open>C7. Let the shuffle keep the size, the rules have at least one deck and a payout
  denominator other than zero, \<open>n\<close> be at least 0 and \<open>n\<close> rounds of the largest possible
  swing fit the \<^verbatim>\<open>int64_t\<close> bankroll. Then \<^verbatim>\<open>simulate\<close> plays \<open>n\<close> rounds and returns
  statistics with \<open>rounds = n\<close>, which are the rounds' results folded in, one after the
  other, from the zero statistics, each as the specification says.\<close>

theorem simulate_folds_rounds:
  assumes "keeps_size shuf" and "0 < num_decks rs" and "in_int32 (num_decks rs * 52)"
    and "blackjack_pays_den rs \<noteq> 0" and "0 \<le> n" and "n * net_bound rs bet < 2 ^ 63"
  shows "\<exists>results. round_results mk shuf n rs seed bet strat s0 = Inr results
    \<and> length results = nat n
    \<and> simulate mk shuf n rs seed bet strat s0 = Inr (foldl (spec_fold bet) zero_stats results)
    \<and> rounds (foldl (spec_fold bet) zero_stats results) = n"
proof -
  from assms(2,3) obtain sh where sh: "new_shoe mk shuf (num_decks rs) seed = Inr sh"
    by (auto simp: new_shoe_def reset_def)
  from reset_shoe [OF assms(1)] sh assms(2) have "length (s_cards sh) = nat (num_decks rs) * 52"
    by (simp add: new_shoe_def)
  with assms(2) have ne: "s_cards sh \<noteq> []" by auto
  from assms(5,6) have "\<bar>bankroll_cents zero_stats\<bar> + int (nat n) * net_bound rs bet < 2 ^ 63"
    by (simp add: zero_stats_def)
  from sim_loop_folds [OF assms(1,4) ne this, of strat s0] obtain results sh' s' where
    r: "play_rounds shuf strat rs bet (nat n) (sh, s0) = Inr results" "length results = nat n"
    "sim_loop shuf strat rs bet (nat n) (zero_stats, sh, s0)
       = Inr (foldl (spec_fold bet) zero_stats results, sh', s')"
    by blast
  have "rounds (foldl (spec_fold bet) zero_stats results) = n"
    using r(2) assms(5) by (simp add: foldl_spec_fold_rounds zero_stats_def)
  with sh r show ?thesis
    by (simp add: round_results_def simulate_def simulate_run_def)
qed

lemma stateless_default: "stateless AlwaysHitUnder17"
  by (simp add: stateless_def AlwaysHitUnder17_def)

lemma stateless_counting: "stateless strat \<Longrightarrow> stateless (counting strat)"
  unfolding stateless_def counting_def by (simp add: split_beta)

text \<open>C7, instance: three rounds under the default strategy, a blackjack, a doubled win and
  a dealer bust: three player wins, one blackjack, one bust, and 150 + 200 + 100 won.\<close>

theorem simulate_folds_rounds_witness:
  "keeps_size (stack_shuffle three_rounds :: unit shuffler) \<and> 0 < num_decks one_deck_rules
   \<and> in_int32 (num_decks one_deck_rules * 52) \<and> blackjack_pays_den one_deck_rules \<noteq> 0
   \<and> (0::int) \<le> 3 \<and> 3 * net_bound one_deck_rules 100 < 2 ^ 63
   \<and> round_results (\<lambda>seed. ()) (stack_shuffle three_rounds) 3 one_deck_rules 42 100
        AlwaysHitUnder17 ()
     = Inr [(\<lparr> outcome = PlayerBJ, player_total = 21, dealer_total = 15, payout_cents = 250 \<rparr>,
             False),
            (\<lparr> outcome = PlayerWin, player_total = 20, dealer_total = 17, payout_cents = 400 \<rparr>,
             True),
            (\<lparr> outcome = DealerBust, player_total = 18, dealer_total = 25, payout_cents = 200 \<rparr>,
             False)]
   \<and> simulate (\<lambda>seed. ()) (stack_shuffle three_rounds) 3 one_deck_rules 42 100
        AlwaysHitUnder17 ()
     = Inr \<lparr> rounds = 3, player_wins = 3, dealer_wins = 0, pushes = 0, player_bj = 1,
             dealer_bj = 0, busts = 1, surrenders = 0, bankroll_cents = 450 \<rparr>"
proof -
  let ?mk = "\<lambda>seed :: nat. ()"
  let ?shuf = "stack_shuffle three_rounds :: unit shuffler"
  have h: "0 < num_decks one_deck_rules" "in_int32 (num_decks one_deck_rules * 52)"
    "blackjack_pays_den one_deck_rules \<noteq> 0" "(0::int) \<le> 3"
    "3 * net_bound one_deck_rules 100 < 2 ^ 63"
    by (simp_all add: one_deck_rules_def default_rules_def in_int32_def net_bound_def)
  have rr: "round_results ?mk ?shuf 3 one_deck_rules 42 100 AlwaysHitUnder17 ()
     = Inr [(\<lparr> outcome = PlayerBJ, player_total = 21, dealer_total = 15, payout_cents = 250 \<rparr>,
             False),
            (\<lparr> outcome = PlayerWin, player_total = 20, dealer_total = 17, payout_cents = 400 \<rparr>,
             True),
            (\<lparr> outcome = DealerBust, player_total = 18, dealer_total = 25, payout_cents = 200 \<rparr>,
             False)]"
    by code_simp
  from simulate_folds_rounds [OF keeps_size_stack [of three_rounds] h, where mk = ?mk
      and seed = 42 and strat = AlwaysHitUnder17 and ?s0.0 = "()"]
  show ?thesis
    using h keeps_size_stack [of three_rounds] rr
    by (simp add: spec_fold_def zero_stats_def)
qed



section \<open>Reproducibility\<close>

lemma outside_fields:
  assumes "outside r = outside q"
  shows "r_rules r = r_rules q" "r_shoe r = r_shoe q" "r_bet r = r_bet q"
    "r_player r = r_player q" "r_dealer r = r_dealer q"
  using assms by (simp_all add: outside_def)

lemma situation_outside: "outside r = outside q \<Longrightarrow> situation r cd = situation q cd"
  by (simp add: situation_def outside_def)

lemma decide_outside:
  assumes "stateless strat" and "outside r = outside q"
  shows "fst (decide strat r cd) = fst (decide strat q cd)"
    and "outside (snd (decide strat r cd)) = outside (snd (decide strat q cd))"
proof -
  from assms(1) have "fst (strat (r_strat r) (situation r cd)) = fst (strat (r_strat q) (situation r cd))"
    unfolding stateless_def by blast
  then show "fst (decide strat r cd) = fst (decide strat q cd)"
    using situation_outside [OF assms(2)] by (simp add: decide_def split_beta)
  show "outside (snd (decide strat r cd)) = outside (snd (decide strat q cd))"
    using assms(2) by (simp add: outside_def decide_fields)
qed

lemma iteration_outside:
  assumes "stateless strat" and "outside r = outside q"
  shows "takes_surrender strat r cd = takes_surrender strat q cd"
    and "outside (after_offer strat r cd) = outside (after_offer strat q cd)"
    and "decision strat r cd = decision strat q cd"
    and "outside (decided strat r cd) = outside (decided strat q cd)"
proof -
  note f = outside_fields [OF assms(2)]
  show "takes_surrender strat r cd = takes_surrender strat q cd"
    using decide_outside(1) [OF assms] f by (simp add: takes_surrender_def)
  show a: "outside (after_offer strat r cd) = outside (after_offer strat q cd)"
    using decide_outside(2) [OF assms] assms(2) f by (simp add: after_offer_def)
  show "decision strat r cd = decision strat q cd"
    using decide_outside(1) [OF assms(1) a] by (simp add: decision_def)
  show "outside (decided strat r cd) = outside (decided strat q cd)"
    using decide_outside(2) [OF assms(1) a] by (simp add: decided_def)
qed

lemma deal_player_outside:
  "outside r = outside q \<Longrightarrow>
   round_outside (deal_player shuf r) = round_outside (deal_player shuf q)"
  by (simp add: round_outside_def deal_player_def outside_def split: sum.splits prod.splits)

lemma deal_dealer_outside:
  "outside r = outside q \<Longrightarrow>
   round_outside (deal_dealer shuf r) = round_outside (deal_dealer shuf q)"
  by (simp add: round_outside_def deal_dealer_def outside_def split: sum.splits prod.splits)

lemma round_outside_cases:
  assumes "round_outside x = round_outside y"
  obtains (fault) e where "x = Inl e" "y = Inl e"
  | (rounds) r q where "x = Inr r" "y = Inr q" "outside r = outside q"
  using assms by (cases x; cases y) (auto simp: round_outside_def)

lemma doubled_outside:
  "outside r = outside q \<Longrightarrow>
   outside (r\<lparr> r_player := (r_player r)\<lparr> doubled := True \<rparr> \<rparr>)
     = outside (q\<lparr> r_player := (r_player q)\<lparr> doubled := True \<rparr> \<rparr>)"
  by (simp add: outside_def)

lemma surrendered_outside:
  "outside r = outside q \<Longrightarrow>
   outside (r\<lparr> r_player := (r_player r)\<lparr> surrendered := True \<rparr> \<rparr>)
     = outside (q\<lparr> r_player := (r_player q)\<lparr> surrendered := True \<rparr> \<rparr>)"
  by (simp add: outside_def)

lemma player_turn_sur:
  "takes_surrender strat r cd \<Longrightarrow>
   player_turn shuf strat r cd = Inr (Some PlayerSurrender, (after_offer strat r cd)
     \<lparr> r_player := (r_player (after_offer strat r cd))\<lparr> surrendered := True \<rparr> \<rparr>)"
  by (subst player_turn_unfold) simp

lemma player_turn_dbl:
  "\<not> takes_surrender strat r cd \<Longrightarrow> decision strat r cd = Double \<Longrightarrow> cd \<Longrightarrow>
   player_turn shuf strat r cd =
     (case deal_player shuf ((decided strat r cd)
        \<lparr> r_player := (r_player (decided strat r cd))\<lparr> doubled := True \<rparr> \<rparr>) of
        Inl e \<Rightarrow> Inl e | Inr r2 \<Rightarrow> Inr (None, r2))"
  by (subst player_turn_unfold) simp

lemma player_turn_hit:
  "\<not> takes_surrender strat r cd \<Longrightarrow> decision strat r cd = Hit \<Longrightarrow>
   player_turn shuf strat r cd =
     (case deal_player shuf (decided strat r cd) of
        Inl e \<Rightarrow> Inl e
      | Inr r2 \<Rightarrow> if is_bust (r_player r2) then Inr (Some PlayerBust, r2)
                  else player_turn shuf strat r2 False)"
  by (subst player_turn_unfold) simp

lemma player_turn_std:
  "\<not> takes_surrender strat r cd \<Longrightarrow> \<not> (decision strat r cd = Double \<and> cd) \<Longrightarrow>
   decision strat r cd \<noteq> Hit \<Longrightarrow>
   player_turn shuf strat r cd = Inr (None, decided strat r cd)"
  by (subst player_turn_unfold) auto

lemma player_turn_outside:
  assumes "stateless strat"
  shows "outside r = outside q \<Longrightarrow>
    turn_outside (player_turn shuf strat r cd) = turn_outside (player_turn shuf strat q cd)"
proof (induction r cd arbitrary: q rule: player_turn_induct [where strat = strat and shuf = shuf])
  case (step r cd)
  note i = iteration_outside [OF assms step.prems, of cd]
  consider (sur) "takes_surrender strat r cd"
    | (dbl) "\<not> takes_surrender strat r cd" "decision strat r cd = Double" "cd"
    | (hit) "\<not> takes_surrender strat r cd" "\<not> (decision strat r cd = Double \<and> cd)" "decision strat r cd = Hit"
    | (std) "\<not> takes_surrender strat r cd" "\<not> (decision strat r cd = Double \<and> cd)" "decision strat r cd \<noteq> Hit"
    by blast
  then show ?case
  proof cases
    case sur
    then have "takes_surrender strat q cd" using i(1) by simp
    with sur surrendered_outside [OF i(2)] show ?thesis
      by (simp add: player_turn_sur turn_outside_def)
  next
    case dbl
    then have dq: "\<not> takes_surrender strat q cd" "decision strat q cd = Double"
      using i(1,3) by simp_all
    from deal_player_outside [OF doubled_outside [OF i(4)], of shuf]
    show ?thesis
      unfolding player_turn_dbl [OF dbl] player_turn_dbl [OF dq dbl(3)]
      by (cases rule: round_outside_cases) (simp_all add: turn_outside_def)
  next
    case hit
    then have hq: "\<not> takes_surrender strat q cd" "decision strat q cd = Hit"
      using i(1,3) by simp_all
    from deal_player_outside [OF i(4), of shuf] show ?thesis
    proof (cases rule: round_outside_cases)
      case (fault e)
      then show ?thesis
        unfolding player_turn_hit [OF hit(1,3)] player_turn_hit [OF hq] by simp
    next
      case (rounds r2 q2)
      note g = outside_fields [OF rounds(3)]
      show ?thesis
      proof (cases "is_bust (r_player r2)")
        case True
        with rounds g show ?thesis
          unfolding player_turn_hit [OF hit(1,3)] player_turn_hit [OF hq]
          by (simp add: turn_outside_def)
      next
        case False
        from step.IH [OF hit rounds(1) False rounds(3)] False rounds g show ?thesis
          unfolding player_turn_hit [OF hit(1,3)] player_turn_hit [OF hq] by simp
      qed
    qed
  next
    case std
    then have sq: "\<not> takes_surrender strat q cd" "\<not> (decision strat q cd = Double \<and> cd)"
      "decision strat q cd \<noteq> Hit"
      using i(1,3) by simp_all
    from i(4) show ?thesis
      unfolding player_turn_std [OF std] player_turn_std [OF sq]
      by (simp add: turn_outside_def)
  qed
qed

lemma dealer_turn_draws:
  "dealer_draws r \<Longrightarrow>
   dealer_turn shuf r = (case deal_dealer shuf r of Inl e \<Rightarrow> Inl e | Inr r1 \<Rightarrow> dealer_turn shuf r1)"
  by (subst dealer_turn_unfold) (simp add: dealer_draws_def)

lemma dealer_turn_stops: "\<not> dealer_draws r \<Longrightarrow> dealer_turn shuf r = Inr r"
  by (subst dealer_turn_unfold) (auto simp: dealer_draws_def)

lemma dealer_turn_outside:
  "outside r = outside q \<Longrightarrow>
   round_outside (dealer_turn shuf r) = round_outside (dealer_turn shuf q)"
proof (induction shuf r arbitrary: q rule: dealer_turn.induct)
  case (1 shuf r)
  note f = outside_fields [OF "1.prems"]
  have same: "dealer_draws q = dealer_draws r"
    using f by (simp add: dealer_draws_def)
  show ?case
  proof (cases "dealer_draws r")
    case True
    then have tq: "dealer_draws q" using same by simp
    from True have c: "hard_total (r_dealer r) < 17
        \<or> \<not> hard_total (r_dealer r) < 17 \<and> hard_total (r_dealer r) = 17
           \<and> dealer_hits_soft17 (r_rules r) \<and> is_soft (r_dealer r)"
      by (auto simp: dealer_draws_def)
    from deal_dealer_outside [OF "1.prems", of shuf] show ?thesis
    proof (cases rule: round_outside_cases)
      case (fault e)
      then show ?thesis
        unfolding dealer_turn_draws [OF True] dealer_turn_draws [OF tq]
        by (simp add: round_outside_def)
    next
      case (rounds r1 q1)
      have "round_outside (dealer_turn shuf r1) = round_outside (dealer_turn shuf q1)"
        using c "1.IH"(1) [OF refl refl _ rounds(1) rounds(3)]
          "1.IH"(2) [OF refl refl _ _ rounds(1) rounds(3)] by blast
      with rounds show ?thesis
        unfolding dealer_turn_draws [OF True] dealer_turn_draws [OF tq] by simp
    qed
  next
    case False
    then have fq: "\<not> dealer_draws q" using same by simp
    from "1.prems" show ?thesis
      unfolding dealer_turn_stops [OF False] dealer_turn_stops [OF fq]
      by (simp add: round_outside_def)
  qed
qed

lemma return_settle_outside:
  "outside r = outside q \<Longrightarrow>
   play_outside (return_settle r oc) = play_outside (return_settle q oc)"
  by (simp add: play_outside_def return_settle_def settle_def outside_def split: sum.splits)

lemma initial_deal_outside:
  assumes "outside r = outside q"
  shows "round_outside (initial_deal shuf r) = round_outside (initial_deal shuf q)"
proof -
  have "outside (r\<lparr> r_player := empty_hand, r_dealer := empty_hand \<rparr>)
      = outside (q\<lparr> r_player := empty_hand, r_dealer := empty_hand \<rparr>)"
    using assms by (simp add: outside_def)
  from deal_player_outside [OF this, of shuf] show ?thesis
  proof (cases rule: round_outside_cases)
    case (fault e)
    then show ?thesis by (simp add: initial_deal_def round_outside_def)
  next
    case a: (rounds ra qa)
    from deal_dealer_outside [OF a(3), of shuf] show ?thesis
    proof (cases rule: round_outside_cases)
      case (fault e)
      with a show ?thesis by (simp add: initial_deal_def round_outside_def)
    next
      case b: (rounds rb qb)
      from deal_player_outside [OF b(3), of shuf] show ?thesis
      proof (cases rule: round_outside_cases)
        case (fault e)
        with a b show ?thesis by (simp add: initial_deal_def round_outside_def)
      next
        case c: (rounds rc qc)
        from deal_dealer_outside [OF c(3), of shuf] a b c show ?thesis
          by (simp add: initial_deal_def)
      qed
    qed
  qed
qed

lemma turn_outside_cases:
  assumes "turn_outside x = turn_outside y"
  obtains (fault) e where "x = Inl e" "y = Inl e"
  | (rounds) oc r q where "x = Inr (oc, r)" "y = Inr (oc, q)" "outside r = outside q"
  using assms by (cases x; cases y) (auto simp: turn_outside_def)

lemma play_outside_cases:
  assumes "play_outside x = play_outside y"
  obtains (fault) e where "x = Inl e" "y = Inl e"
  | (rounds) res r q where "x = Inr (res, r)" "y = Inr (res, q)" "outside r = outside q"
  using assms by (cases x; cases y) (auto simp: play_outside_def)

lemma play_as_play_on:
  "play shuf strat r = (case initial_deal shuf r of Inl e \<Rightarrow> Inl e | Inr r1 \<Rightarrow> play_on shuf strat r1)"
  by (auto simp: play_def play_on_def Let_def split: sum.splits option.splits)

lemma play_on_outside:
  assumes "stateless strat" and "outside r = outside q"
  shows "play_outside (play_on shuf strat r) = play_outside (play_on shuf strat q)"
proof -
  note f = outside_fields [OF assms(2)]
  show ?thesis
  proof (cases "peek_for_blackjack (r_rules r) \<and> is_blackjack (r_dealer r)
      \<or> is_blackjack (r_player r)")
    case True
    then consider
      (push) "peek_for_blackjack (r_rules r) \<and> is_blackjack (r_dealer r)" "is_blackjack (r_player r)"
      | (dealer) "peek_for_blackjack (r_rules r) \<and> is_blackjack (r_dealer r)" "\<not> is_blackjack (r_player r)"
      | (player) "\<not> (peek_for_blackjack (r_rules r) \<and> is_blackjack (r_dealer r))" "is_blackjack (r_player r)"
      by blast
    then have "\<exists>oc. play_on shuf strat r = return_settle r oc
        \<and> play_on shuf strat q = return_settle q oc"
    proof cases
      case push
      with f have "play_on shuf strat r = return_settle r Push"
        "play_on shuf strat q = return_settle q Push"
        by (auto simp: play_on_def)
      then show ?thesis by blast
    next
      case dealer
      with f have "play_on shuf strat r = return_settle r DealerBJ"
        "play_on shuf strat q = return_settle q DealerBJ"
        by (auto simp: play_on_def)
      then show ?thesis by blast
    next
      case player
      with f have "play_on shuf strat r = return_settle r PlayerBJ"
        "play_on shuf strat q = return_settle q PlayerBJ"
        by (auto simp: play_on_def)
      then show ?thesis by blast
    qed
    with return_settle_outside [OF assms(2)] show ?thesis by auto
  next
    case False
    then have on: "play_on shuf strat r =
        (case player_turn shuf strat r (double_allowed (r_rules r)) of
           Inl e \<Rightarrow> Inl e
         | Inr (Some oc, r2) \<Rightarrow> return_settle r2 oc
         | Inr (None, r2) \<Rightarrow>
             (case dealer_turn shuf r2 of
                Inl e \<Rightarrow> Inl e
              | Inr r3 \<Rightarrow>
                  return_settle r3
                    (if is_bust (r_dealer r3) then DealerBust
                     else if hard_total (r_player r3) > hard_total (r_dealer r3) then PlayerWin
                     else if hard_total (r_player r3) < hard_total (r_dealer r3) then DealerWin
                     else Push)))" (is "_ = ?rest r")
      by (auto simp: play_on_def)
    from False f have "play_on shuf strat q = ?rest q"
      by (auto simp: play_on_def)
    moreover have "play_outside (?rest r) = play_outside (?rest q)"
      using player_turn_outside [OF assms, of shuf "double_allowed (r_rules r)"]
    proof (cases rule: turn_outside_cases)
      case (fault e)
      with f show ?thesis by (simp add: play_outside_def)
    next
      case t: (rounds o2 r2 q2)
      show ?thesis
      proof (cases o2)
        case (Some oc)
        with t f return_settle_outside [OF t(3)] show ?thesis by simp
      next
        case None
        from dealer_turn_outside [OF t(3), of shuf] show ?thesis
        proof (cases rule: round_outside_cases)
          case (fault e)
          with t f None show ?thesis by (simp add: play_outside_def)
        next
          case d: (rounds r3 q3)
          note g = outside_fields [OF d(3)]
          from t f None d g return_settle_outside [OF d(3)] show ?thesis by simp
        qed
      qed
    qed
    ultimately show ?thesis using on by simp
  qed
qed

lemma play_outside_eq:
  assumes "stateless strat" and "outside r = outside q"
  shows "play_outside (play shuf strat r) = play_outside (play shuf strat q)"
  using initial_deal_outside [OF assms(2), of shuf]
proof (cases rule: round_outside_cases)
  case (fault e)
  then show ?thesis by (simp add: play_as_play_on play_outside_def)
next
  case (rounds r1 q1)
  with play_on_outside [OF assms(1) rounds(3)] show ?thesis
    by (simp add: play_as_play_on)
qed

lemma new_round_outside: "outside (new_round rs sh s bet) = outside (new_round rs sh s' bet)"
  by (simp add: outside_def new_round_def)

lemma sim_loop_outside:
  assumes "stateless strat"
  shows "loop_outside (sim_loop shuf strat rs bet k (st, sh, s))
       = loop_outside (sim_loop shuf strat rs bet k (st, sh, s'))"
proof (induction k arbitrary: st sh s s')
  case 0
  show ?case by (simp add: loop_outside_def)
next
  case (Suc k)
  from play_outside_eq [OF assms new_round_outside, of shuf rs sh s bet s'] show ?case
  proof (cases rule: play_outside_cases)
    case (fault e)
    then show ?thesis by (simp add: loop_outside_def)
  next
    case (rounds res r q)
    note f = outside_fields [OF rounds(3)]
    show ?thesis
    proof (cases "tally bet st res (doubled (r_player r))")
      case (Inl e)
      with rounds f show ?thesis by (simp add: loop_outside_def)
    next
      case (Inr st')
      with rounds f Suc.IH [of st' "r_shoe q" "r_strat r" "r_strat q"] show ?thesis by simp
    qed
  qed
qed

lemma play_rounds_outside:
  assumes "stateless strat"
  shows "play_rounds shuf strat rs bet k (sh, s) = play_rounds shuf strat rs bet k (sh, s')"
proof (induction k arbitrary: sh s s')
  case 0
  show ?case by simp
next
  case (Suc k)
  from play_outside_eq [OF assms new_round_outside, of shuf rs sh s bet s'] show ?case
  proof (cases rule: play_outside_cases)
    case (fault e)
    then show ?thesis by simp
  next
    case (rounds res r q)
    note f = outside_fields [OF rounds(3)]
    from rounds f Suc.IH [of "r_shoe q" "r_strat r" "r_strat q"] show ?thesis
      by (simp split: sum.splits)
  qed
qed

lemma simulate_outside:
  assumes "stateless strat"
  shows "simulate mk shuf n rs seed bet strat s = simulate mk shuf n rs seed bet strat s'"
proof (cases "new_shoe mk shuf (num_decks rs) seed")
  case (Inl e)
  then show ?thesis by (simp add: simulate_def simulate_run_def)
next
  case (Inr sh)
  from sim_loop_outside [OF assms, of shuf rs bet "nat n" zero_stats sh s s'] Inr show ?thesis
    by (auto simp: simulate_def simulate_run_def loop_outside_def split: sum.splits)
qed

text \<open>C9. \<^verbatim>\<open>simulate\<close> is a function of its arguments in this model; what it could still
  depend on is the state in which the caller's strategy object happens to be. For a strategy
  whose decisions do not depend on that state, the statistics and the sequence of round
  results are the same from any two states of the object; in particular a second run, made
  with the strategy object as the first run left it, returns the statistics of the first.\<close>

theorem simulate_reproducible:
  assumes "stateless strat"
  shows "simulate mk shuf n rs seed bet strat s = simulate mk shuf n rs seed bet strat s'
    \<and> round_results mk shuf n rs seed bet strat s = round_results mk shuf n rs seed bet strat s'
    \<and> (strategy_after mk shuf n rs seed bet strat s = Inr s1 \<longrightarrow>
         simulate mk shuf n rs seed bet strat s1 = simulate mk shuf n rs seed bet strat s)"
proof (intro conjI impI)
  show "simulate mk shuf n rs seed bet strat s = simulate mk shuf n rs seed bet strat s'"
    by (rule simulate_outside [OF assms])
  show "round_results mk shuf n rs seed bet strat s = round_results mk shuf n rs seed bet strat s'"
    by (simp add: round_results_def play_rounds_outside [OF assms, of _ _ _ _ _ s s']
        split: sum.splits)
  show "simulate mk shuf n rs seed bet strat s1 = simulate mk shuf n rs seed bet strat s"
    by (rule simulate_outside [OF assms])
qed

text \<open>C9, instance: the default strategy, counting its calls. The first run leaves the count
  at 2; the second run, started from there, returns the same statistics.\<close>

theorem simulate_reproducible_witness:
  "stateless (counting AlwaysHitUnder17 :: (unit \<times> nat) Strategy)
   \<and> strategy_after (\<lambda>seed. ()) (stack_shuffle three_rounds) 3 one_deck_rules 42 100
        (counting AlwaysHitUnder17) ((), 0) = Inr ((), 2)
   \<and> simulate (\<lambda>seed. ()) (stack_shuffle three_rounds) 3 one_deck_rules 42 100
        (counting AlwaysHitUnder17) ((), 2)
     = simulate (\<lambda>seed. ()) (stack_shuffle three_rounds) 3 one_deck_rules 42 100
        (counting AlwaysHitUnder17) ((), 0)
   \<and> simulate (\<lambda>seed. ()) (stack_shuffle three_rounds) 3 one_deck_rules 42 100
        (counting AlwaysHitUnder17) ((), 0)
     = Inr \<lparr> rounds = 3, player_wins = 3, dealer_wins = 0, pushes = 0, player_bj = 1,
             dealer_bj = 0, busts = 1, surrenders = 0, bankroll_cents = 450 \<rparr>"
proof -
  let ?mk = "\<lambda>seed :: nat. ()"
  let ?shuf = "stack_shuffle three_rounds :: unit shuffler"
  let ?strat = "counting AlwaysHitUnder17 :: (unit \<times> nat) Strategy"
  have st: "stateless ?strat"
    by (intro stateless_counting stateless_default)
  have after: "strategy_after ?mk ?shuf 3 one_deck_rules 42 100 ?strat ((), 0) = Inr ((), 2)"
    by code_simp
  have first: "simulate ?mk ?shuf 3 one_deck_rules 42 100 ?strat ((), 0)
     = Inr \<lparr> rounds = 3, player_wins = 3, dealer_wins = 0, pushes = 0, player_bj = 1,
             dealer_bj = 0, busts = 1, surrenders = 0, bankroll_cents = 450 \<rparr>"
    by code_simp
  from simulate_reproducible [OF st, where mk = ?mk and shuf = ?shuf and n = 3
      and rs = one_deck_rules and seed = 42 and bet = 100 and s = "((), 0)" and s' = "((), 0)"
      and ?s1.0 = "((), 2)"]
  show ?thesis
    using st after first by simp
qed

end
